theory Spec2Isabelle
  imports Main
begin

section \<open>Exceptions and the collaborators of \<^verbatim>\<open>uci/engine.py\<close>\<close>

text \<open>
  The exception classes that the handlers of \<^verbatim>\<open>uci/engine.py\<close> tell apart.
  \<^verbatim>\<open>CancelledError\<close> derives from \<^verbatim>\<open>BaseException\<close> only (Python 3.8 and later,
  which the test suite's \<^verbatim>\<open>IsolatedAsyncioTestCase\<close> requires); every other
  constructor is a subclass of \<^verbatim>\<open>Exception\<close>. \<^verbatim>\<open>OtherException\<close> stands for any
  \<^verbatim>\<open>Exception\<close> subclass that no handler names.
\<close>

datatype py_exn =
    CancelledError
  | EngineTerminatedError
  | EngineError
  | TimeoutError
  | OSError
  | TypeError
  | AssertionError
  | AttributeError
  | AnalysisComplete
  | OtherException

fun is_Exception :: "py_exn \<Rightarrow> bool" where
  "is_Exception CancelledError = False"
| "is_Exception _ = True"

text \<open>
  \<^verbatim>\<open>chess.WHITE\<close> is \<^verbatim>\<open>True\<close> and \<^verbatim>\<open>chess.BLACK\<close> is \<^verbatim>\<open>False\<close>.
  A \<^verbatim>\<open>chess.Board\<close> belongs to the rules library; it is modelled by the queries
  that the engine module makes on it.
\<close>

datatype color = WHITE | BLACK

record Board =
  fen :: string
  turn :: color
  is_game_over :: bool
  is_checkmate :: bool
  is_stalemate :: bool
  is_insufficient_material :: bool
  is_seventyfive_moves :: bool
  is_fivefold_repetition :: bool

text \<open>The starting position, White to move, no terminal condition.\<close>

abbreviation quiet_board :: Board where
  "quiet_board \<equiv>
     \<lparr>fen = ''rnbqkbnr/pppppppp/8/8/8/8/PPPPPPPP/RNBQKBNR w KQkq - 0 1'', turn = WHITE,
      is_game_over = False, is_checkmate = False, is_stalemate = False,
      is_insufficient_material = False, is_seventyfive_moves = False,
      is_fivefold_repetition = False\<rparr>"

section \<open>\<^verbatim>\<open>UciEngine.handle_bestmove_0000\<close>\<close>

text \<open>
  The function reads the board, whether an engine is loaded (\<open>engine_present\<close>), and the
  outcome of \<^verbatim>\<open>asyncio.wait_for(self.engine.ping(), timeout)\<close>: \<open>None\<close> when the
  engine answered in time, \<open>Some e\<close> when the await raised \<open>e\<close> (\<open>TimeoutError\<close> when the
  timeout elapsed). An exception that no handler catches leaves the function (\<open>Inl\<close>).
\<close>

definition resignation_result :: "Board \<Rightarrow> string" where
  "resignation_result game = (if turn game = WHITE then ''0-1'' else ''1-0'')"

definition handle_bestmove_0000 :: "bool \<Rightarrow> py_exn option \<Rightarrow> Board \<Rightarrow> py_exn + string" where
  "handle_bestmove_0000 engine_present ping game =
     (if is_checkmate game then Inr (if turn game = WHITE then ''0-1'' else ''1-0'')
      else if is_stalemate game \<or> is_insufficient_material game
              \<or> is_seventyfive_moves game \<or> is_fivefold_repetition game
        then Inr ''1/2-1/2''
      else
        (case (if \<not> engine_present then Some EngineTerminatedError else ping) of
           None \<Rightarrow> Inr (if turn game = WHITE then ''0-1'' else ''1-0'')
         | Some e \<Rightarrow>
             if e = TimeoutError \<or> e = EngineTerminatedError \<or> e = OSError then Inr ''*''
             else if e = AssertionError then Inr ''*''
             else Inl e))"

definition terminal_draw :: "Board \<Rightarrow> bool" where
  "terminal_draw game \<longleftrightarrow>
     is_stalemate game \<or> is_insufficient_material game
     \<or> is_seventyfive_moves game \<or> is_fivefold_repetition game"

section \<open>\<^verbatim>\<open>EngineLease\<close>\<close>

text \<open>
  The lease holds an \<^verbatim>\<open>asyncio.Lock\<close>, the owner's name, the interrupt event and the
  name of the requester. The lock belongs to the standard library: it is a flag
  (\<open>locked\<close>) and a first-in first-out queue of suspended acquirers (\<open>waiters\<close>). Each
  waiter is a suspended call \<^verbatim>\<open>acquire(owner, preempt)\<close>, kept with its owner argument
  and its local variable \<^verbatim>\<open>requester\<close>.
\<close>

record EngineLease =
  locked :: bool
  waiters :: "(string \<times> string option) list"
  lease_owner :: "string option"
  interrupt_event :: bool
  requester :: "string option"

definition lease_init :: EngineLease where
  "lease_init = \<lparr>locked = False, waiters = [], lease_owner = None,
                 interrupt_event = False, requester = None\<rparr>"

abbreviation owner_continuous :: string where "owner_continuous \<equiv> ''continuous''"
abbreviation owner_playing :: string where "owner_playing \<equiv> ''playing''"

text \<open>Python's truth value of \<^verbatim>\<open>requester\<close>: neither \<^verbatim>\<open>None\<close> nor the empty string.\<close>

definition truthy :: "string option \<Rightarrow> bool" where
  "truthy r \<longleftrightarrow> r \<noteq> None \<and> r \<noteq> Some []"

text \<open>
  \<^verbatim>\<open>acquire\<close> has one suspension point, \<^verbatim>\<open>await self._lock.acquire()\<close>. Between
  suspension points a coroutine runs alone, so the method is modelled by its atomic
  segments: \<open>acquire_call\<close> runs from the call to the suspension (or to the return, when
  the lock is free and nobody queues, or when the caller is the owner already);
  \<open>acquire_wakeup\<close> resumes the oldest waiter once the lock is free and runs the tail
  of the method (\<open>acquire_granted\<close>); \<open>acquire_cancelled\<close> is a waiter receiving
  \<^verbatim>\<open>CancelledError\<close>, which \<^verbatim>\<open>except Exception\<close> does not catch;
  \<open>acquire_failed\<close> is the lock raising an \<^verbatim>\<open>Exception\<close> in a waiter, which runs the
  handler.
\<close>

definition acquire_granted :: "string \<Rightarrow> EngineLease \<Rightarrow> EngineLease" where
  "acquire_granted ow l = l\<lparr>lease_owner := Some ow, requester := None, interrupt_event := False\<rparr>"

definition acquire_call :: "string \<Rightarrow> bool \<Rightarrow> EngineLease \<Rightarrow> EngineLease" where
  "acquire_call ow preempt l =
     (if lease_owner l = Some ow then l
      else
        let req = (if preempt then Some ow else None);
            l1 = (if truthy req then l\<lparr>requester := req, interrupt_event := True\<rparr> else l)
        in if \<not> locked l1 \<and> waiters l1 = []
           then acquire_granted ow (l1\<lparr>locked := True\<rparr>)
           else l1\<lparr>waiters := waiters l1 @ [(ow, req)]\<rparr>)"

definition acquire_wakeup :: "EngineLease \<Rightarrow> EngineLease option" where
  "acquire_wakeup l =
     (case waiters l of
        [] \<Rightarrow> None
      | (ow, req) # ws \<Rightarrow>
          if locked l then None
          else Some (acquire_granted ow (l\<lparr>locked := True, waiters := ws\<rparr>)))"

definition drop_waiter :: "nat \<Rightarrow> EngineLease \<Rightarrow> EngineLease" where
  "drop_waiter i l = l\<lparr>waiters := take i (waiters l) @ drop (Suc i) (waiters l)\<rparr>"

definition acquire_cancelled :: "nat \<Rightarrow> EngineLease \<Rightarrow> EngineLease option" where
  "acquire_cancelled i l = (if i < length (waiters l) then Some (drop_waiter i l) else None)"

definition acquire_failed :: "nat \<Rightarrow> EngineLease \<Rightarrow> EngineLease option" where
  "acquire_failed i l =
     (if i < length (waiters l) then
        let req = snd (waiters l ! i); l1 = drop_waiter i l
        in Some (if truthy req \<and> requester l1 = req
                 then l1\<lparr>requester := None, interrupt_event := False\<rparr> else l1)
      else None)"

definition release :: "string \<Rightarrow> EngineLease \<Rightarrow> EngineLease" where
  "release ow l =
     (if Some ow \<noteq> lease_owner l then l
      else
        let l1 = l\<lparr>lease_owner := None, interrupt_event := False\<rparr>
        in if locked l1 then l1\<lparr>locked := False\<rparr> else l1)"

definition interrupt_requested :: "string \<Rightarrow> EngineLease \<Rightarrow> bool" where
  "interrupt_requested ow l \<longleftrightarrow> lease_owner l = Some ow \<and> interrupt_event l"

text \<open>
  A run of the lease is a list of events; an event that is not enabled (waking up with
  no waiter or with the lock held, cancelling a waiter that is not there) has no result.
\<close>

datatype lease_event =
    Acquire string bool
  | Wakeup
  | WaitCancelled nat
  | WaitFailed nat
  | Release string

fun lease_step :: "lease_event \<Rightarrow> EngineLease \<Rightarrow> EngineLease option" where
  "lease_step (Acquire ow preempt) l = Some (acquire_call ow preempt l)"
| "lease_step Wakeup l = acquire_wakeup l"
| "lease_step (WaitCancelled i) l = acquire_cancelled i l"
| "lease_step (WaitFailed i) l = acquire_failed i l"
| "lease_step (Release ow) l = Some (release ow l)"

fun lease_run :: "lease_event list \<Rightarrow> EngineLease \<Rightarrow> EngineLease option" where
  "lease_run [] l = Some l"
| "lease_run (e # es) l =
     (case lease_step e l of None \<Rightarrow> None | Some l' \<Rightarrow> lease_run es l')"

text \<open>
  Bookkeeping on runs: whose call an event is, whether the last call of an owner in a run
  is a release, which owners are suspended in \<^verbatim>\<open>acquire\<close>, and whether a run respects
  program order (an owner suspended in \<^verbatim>\<open>acquire\<close> makes no further call).
\<close>

fun is_call_of :: "string \<Rightarrow> lease_event \<Rightarrow> bool" where
  "is_call_of ow (Acquire a _) = (a = ow)"
| "is_call_of ow (Release a) = (a = ow)"
| "is_call_of ow _ = False"

fun event_by :: "string set \<Rightarrow> lease_event \<Rightarrow> bool" where
  "event_by P (Acquire a _) = (a \<in> P)"
| "event_by P (Release a) = (a \<in> P)"
| "event_by P _ = True"

definition has_released :: "string \<Rightarrow> lease_event list \<Rightarrow> bool" where
  "has_released ow es =
     (case filter (is_call_of ow) (rev es) of [] \<Rightarrow> True | e # _ \<Rightarrow> e = Release ow)"

definition pending :: "EngineLease \<Rightarrow> string set" where
  "pending l = fst ` set (waiters l)"

fun may_call :: "lease_event \<Rightarrow> EngineLease \<Rightarrow> bool" where
  "may_call (Acquire a _) l = (a \<notin> pending l)"
| "may_call (Release a) l = (a \<notin> pending l)"
| "may_call _ l = True"

fun program_order :: "lease_event list \<Rightarrow> EngineLease \<Rightarrow> bool" where
  "program_order [] l = True"
| "program_order (e # es) l =
     (may_call e l \<and> (case lease_step e l of None \<Rightarrow> False | Some l' \<Rightarrow> program_order es l'))"

definition lease_inv :: "EngineLease \<Rightarrow> bool" where
  "lease_inv l \<longleftrightarrow> (locked l \<longleftrightarrow> lease_owner l \<noteq> None)"

definition engaged :: "string \<Rightarrow> EngineLease \<Rightarrow> bool" where
  "engaged ow l \<longleftrightarrow> lease_owner l = Some ow \<or> ow \<in> pending l"

definition owners_within :: "string set \<Rightarrow> EngineLease \<Rightarrow> bool" where
  "owners_within P l \<longleftrightarrow> pending l \<subseteq> P \<and> (\<forall>ow. lease_owner l = Some ow \<longrightarrow> ow \<in> P)"

fun is_WaitFailed :: "lease_event \<Rightarrow> bool" where
  "is_WaitFailed (WaitFailed _) = True"
| "is_WaitFailed _ = False"

section \<open>\<^verbatim>\<open>ContinuousAnalysis\<close>\<close>

text \<open>
  An \<^verbatim>\<open>InfoDict\<close> is the engine's info dictionary; the code reads its key
  \<^verbatim>\<open>depth\<close> (\<open>None\<close> when the key is absent), the rest is \<open>details\<close>. A
  \<^verbatim>\<open>Limit\<close> is read through its attribute \<^verbatim>\<open>depth\<close> (here \<open>limit_depth\<close>).
\<close>

record InfoDict =
  depth :: "int option"
  details :: nat

record Limit =
  limit_depth :: "int option"
  limit_details :: nat

text \<open>
  \<^verbatim>\<open>_analysis_data\<close> is not a copy: \<^verbatim>\<open>_update_analysis_data\<close> stores a reference to
  the list \<^verbatim>\<open>analysis.multipv\<close> of the library's analysis object, and the library
  changes that list in place whenever the engine sends info. The object is modelled by
  the present content of its list (\<open>stored\<close>) and by the arguments that
  \<^verbatim>\<open>engine.analysis\<close> was called with when it created the object: the position
  string of the board (\<open>computed_for\<close>) and the game id (\<open>computed_under\<close>).
\<close>

record analysis_object =
  stored :: "InfoDict list"
  computed_for :: string
  computed_under :: int

text \<open>
  The fields of the analyser keep their names, except \<^verbatim>\<open>engine\<close> and \<^verbatim>\<open>_task\<close>
  (\<open>ca_engine\<close>, the handle of the engine object, and \<open>ca_task\<close>, whether
  \<^verbatim>\<open>_task\<close> is set). \<^verbatim>\<open>game.copy()\<close> is the board itself in a model of values.
\<close>

record ContinuousAnalysis =
  game :: "Board option"
  limit_reached :: bool
  current_game :: "Board option"
  running :: bool
  ca_task :: bool
  analysis_data :: "analysis_object option"
  limit :: "Limit option"
  multipv :: "int option"
  ca_engine :: "nat option"
  game_id :: int
  current_game_id :: int

definition set_game_id :: "int \<Rightarrow> ContinuousAnalysis \<Rightarrow> ContinuousAnalysis" where
  "set_game_id n s = s\<lparr>game_id := n, current_game_id := n\<rparr>"

definition ContinuousAnalysis_init :: "nat option \<Rightarrow> ContinuousAnalysis" where
  "ContinuousAnalysis_init eng =
     set_game_id 1
       \<lparr>game = None, limit_reached = False, current_game = None, running = False,
        ca_task = False, analysis_data = None, limit = None, multipv = None,
        ca_engine = eng, game_id = 0, current_game_id = 0\<rparr>"

definition game_analysable :: "Board option \<Rightarrow> bool" where
  "game_analysable g = (case g of None \<Rightarrow> False | Some b \<Rightarrow> if is_game_over b then False else True)"

definition get_fen :: "ContinuousAnalysis \<Rightarrow> string" where
  "get_fen s = (case current_game s of Some b \<Rightarrow> fen b | None \<Rightarrow> [])"

text \<open>
  \<^verbatim>\<open>_update_analysis_data\<close>, given the analysis object: when its list is not
  empty, \<^verbatim>\<open>_analysis_data\<close> refers to it from now on.
\<close>

definition update_analysis_data :: "analysis_object \<Rightarrow> ContinuousAnalysis
    \<Rightarrow> bool \<times> ContinuousAnalysis" where
  "update_analysis_data an s =
     (if stored an \<noteq> [] then (True, s\<lparr>analysis_data := Some an\<rparr>) else (False, s))"

text \<open>
  \<^verbatim>\<open>start\<close> returns, besides the new state, whether it created the background task
  (\<^verbatim>\<open>loop.create_task(self._watching_analyse())\<close>).
\<close>

definition start :: "Board \<Rightarrow> Limit option \<Rightarrow> int option \<Rightarrow> ContinuousAnalysis
    \<Rightarrow> bool \<times> ContinuousAnalysis" where
  "start g lim mpv s =
     (if \<not> running s then
        (if ca_engine s = None then (False, s)
         else (True, s\<lparr>game := Some g, limit_reached := False, limit := lim, multipv := mpv,
                      running := True, ca_task := True\<rparr>))
      else (False, s))"

definition get_limit_depth :: "ContinuousAnalysis \<Rightarrow> int option" where
  "get_limit_depth s = (case limit s of Some l \<Rightarrow> limit_depth l | None \<Rightarrow> None)"

definition update_limit :: "Limit option \<Rightarrow> ContinuousAnalysis \<Rightarrow> ContinuousAnalysis" where
  "update_limit lim s = (if running s then s\<lparr>limit := lim\<rparr> else s)"

definition stop :: "ContinuousAnalysis \<Rightarrow> ContinuousAnalysis" where
  "stop s = (if running s then s\<lparr>running := False\<rparr> else s)"

definition cancel :: "ContinuousAnalysis \<Rightarrow> ContinuousAnalysis" where
  "cancel s =
     (if running s then
        (if ca_task s then s\<lparr>ca_task := False, running := False\<rparr> else s)
      else s)"

text \<open>
  The dictionary that \<^verbatim>\<open>get_analysis\<close> returns: \<open>res_info\<close> is the deep copy of
  what \<^verbatim>\<open>_analysis_data\<close> refers to at that moment (Python's \<^verbatim>\<open>None\<close> is
  \<open>None\<close>), \<open>res_game\<close> the value under \<^verbatim>\<open>game\<close>, \<open>None\<close> when the key is
  absent. With no current board, \<^verbatim>\<open>self.current_game.fen()\<close> raises
  \<^verbatim>\<open>AttributeError\<close>.
\<close>

record analysis_result =
  res_info :: "InfoDict list option"
  res_fen :: string
  res_game :: "int option"

definition get_analysis :: "ContinuousAnalysis \<Rightarrow> py_exn + analysis_result" where
  "get_analysis s =
     (case current_game s of
        None \<Rightarrow> Inl AttributeError
      | Some b \<Rightarrow>
          Inr \<lparr>res_info = map_option stored (analysis_data s), res_fen = fen b,
               res_game = Some (current_game_id s)\<rparr>)"

definition update_game :: "Board \<Rightarrow> ContinuousAnalysis \<Rightarrow> ContinuousAnalysis" where
  "update_game new_game s = s\<lparr>game := Some new_game, limit_reached := False\<rparr>"

definition is_running :: "ContinuousAnalysis \<Rightarrow> bool" where
  "is_running s = running s"

text \<open>
  The background task runs between the calls that other coroutines make on the analyser
  while it is suspended; these are the calls that change what the loop reads. The last
  one is the library changing, in place, the list that \<^verbatim>\<open>_analysis_data\<close> refers to.
\<close>

datatype ca_call =
    Update_game Board
  | Set_game_id int
  | Update_limit "Limit option"
  | Stop
  | Cancel
  | Engine_info "InfoDict list"

fun apply_call :: "ca_call \<Rightarrow> ContinuousAnalysis \<Rightarrow> ContinuousAnalysis" where
  "apply_call (Update_game b) s = update_game b s"
| "apply_call (Set_game_id n) s = set_game_id n s"
| "apply_call (Update_limit lim) s = update_limit lim s"
| "apply_call Stop s = stop s"
| "apply_call Cancel s = cancel s"
| "apply_call (Engine_info ls) s =
     s\<lparr>analysis_data := map_option (\<lambda>an. an\<lparr>stored := ls\<rparr>) (analysis_data s)\<rparr>"

fun apply_calls :: "ca_call list \<Rightarrow> ContinuousAnalysis \<Rightarrow> ContinuousAnalysis" where
  "apply_calls [] s = s"
| "apply_calls (c # cs) s = apply_calls cs (apply_call c s)"

text \<open>
  What the background task does to its collaborators, in order: its sleeps in the two
  idle branches of the loop, the pacing sleep after an info update, the calls on the
  lease, the call of \<^verbatim>\<open>engine.analysis\<close> with its arguments, and
  \<^verbatim>\<open>analysis.stop()\<close> (called by the loop, and by the library when the
  \<^verbatim>\<open>with\<close> block is left).
\<close>

datatype ca_action =
    Sleep_no_game
  | Sleep_limited
  | Sleep_delay
  | Lease_acquire
  | Lease_release
  | Engine_analysis Board "Limit option" "int option" int
  | Analysis_stop

text \<open>
  The environment of one call of \<^verbatim>\<open>_analyse_forever\<close>: whether acquiring the lease
  raises, the calls of other coroutines that arrive while the task waits for the lease,
  whether opening the analysis raises, the info updates that the engine delivers, and how
  the stream ends when the loop has consumed them all (\<open>None\<close>: the engine stopped
  sending; \<open>Some e\<close>: the await raised \<open>e\<close>, a cancellation for instance). Each update
  carries the calls of other coroutines that arrived since the previous one, the value of
  \<^verbatim>\<open>engine_lease.interrupt_requested("continuous")\<close> at that moment, and the content
  of \<^verbatim>\<open>analysis.multipv\<close>.
\<close>

record info_update =
  outside :: "ca_call list"
  interrupted :: bool
  lines :: "InfoDict list"

record analysis_env =
  acquire_raises :: "py_exn option"
  during_acquire :: "ca_call list"
  analysis_raises :: "py_exn option"
  updates :: "info_update list"
  stream_raises :: "py_exn option"

datatype tick_result = Next | Return | Raised py_exn

text \<open>
  Lines 298 to 304: a limit was passed, the top line has a depth, \<^verbatim>\<open>limit.depth\<close> is
  set and not zero, and the depth has reached it. \<open>depth_reached\<close> is the test on the
  lines, \<open>limit_hit\<close> the test on what \<^verbatim>\<open>_analysis_data\<close> refers to.
\<close>

definition depth_reached :: "Limit option \<Rightarrow> InfoDict list \<Rightarrow> bool" where
  "depth_reached lim ls =
     (case lim of
        None \<Rightarrow> False
      | Some l \<Rightarrow>
          (case ls of
             [] \<Rightarrow> False
           | info_limit # _ \<Rightarrow>
               (case depth info_limit of
                  None \<Rightarrow> False
                | Some d \<Rightarrow>
                    (case limit_depth l of
                       None \<Rightarrow> False
                     | Some ld \<Rightarrow> ld \<noteq> 0 \<and> d \<ge> ld))))"

definition limit_hit :: "Limit option \<Rightarrow> ContinuousAnalysis \<Rightarrow> bool" where
  "limit_hit lim s =
     (case analysis_data s of None \<Rightarrow> False | Some an \<Rightarrow> depth_reached lim (stored an))"

text \<open>
  The test of lines 283 to 285, in Python's order of evaluation; calling
  \<^verbatim>\<open>fen()\<close> on a missing board raises.
\<close>

definition target_superseded :: "ContinuousAnalysis \<Rightarrow> py_exn + bool" where
  "target_superseded s =
     (if \<not> running s then Inr True
      else if current_game_id s \<noteq> game_id s then Inr True
      else
        (case (current_game s, game s) of
           (Some c, Some g) \<Rightarrow> Inr (fen c \<noteq> fen g)
         | _ \<Rightarrow> Inl AttributeError))"

text \<open>
  One turn of the \<^verbatim>\<open>async for\<close> loop. \<open>afen\<close> and \<open>agid\<close> are the arguments the
  analysis object was created with; \<open>lines u\<close> is the content of its list now.
\<close>

definition analyse_update :: "Limit option \<Rightarrow> string \<Rightarrow> int \<Rightarrow> info_update
    \<Rightarrow> ContinuousAnalysis \<Rightarrow> tick_result \<times> ca_action list \<times> ContinuousAnalysis" where
  "analyse_update lim afen agid u s0 =
     (let s = apply_calls (outside u) s0 in
      if interrupted u then (Return, [Analysis_stop], s)
      else
        (case target_superseded s of
           Inl e \<Rightarrow> (Raised e, [], s)
         | Inr superseded \<Rightarrow>
             if superseded \<or> interrupted u
             then (Return, [Analysis_stop], s\<lparr>analysis_data := None\<rparr>)
             else
               (case update_analysis_data
                       \<lparr>stored = lines u, computed_for = afen, computed_under = agid\<rparr> s of
                  (updated, s1) \<Rightarrow>
                    if updated \<and> limit_hit lim s1
                    then (Return, [], s1\<lparr>limit_reached := True\<rparr>)
                    else (Next, [Sleep_delay], s1))))"

fun analyse_updates :: "Limit option \<Rightarrow> string \<Rightarrow> int \<Rightarrow> info_update list
    \<Rightarrow> py_exn option \<Rightarrow> ContinuousAnalysis
    \<Rightarrow> py_exn option \<times> ca_action list \<times> ContinuousAnalysis" where
  "analyse_updates lim afen agid [] fin s = (fin, [], s)"
| "analyse_updates lim afen agid (u # us) fin s =
     (case analyse_update lim afen agid u s of
        (Return, tr, s1) \<Rightarrow> (None, tr, s1)
      | (Raised e, tr, s1) \<Rightarrow> (Some e, tr, s1)
      | (Next, tr, s1) \<Rightarrow>
          (case analyse_updates lim afen agid us fin s1 of
             (x, tr2, s2) \<Rightarrow> (x, tr @ tr2, s2)))"

text \<open>
  \<^verbatim>\<open>_analyse_forever\<close>. The lease is acquired before the \<^verbatim>\<open>try\<close>, so an exception
  there releases nothing. \<^verbatim>\<open>self.current_game\<close> and \<^verbatim>\<open>self.game_id\<close> are read
  after the wait for the lease; \<open>lim\<close> and \<open>mpv\<close> are the arguments, read before it.
  Leaving the \<^verbatim>\<open>with\<close> block stops the analysis. Opening an analysis on a missing
  board fails in the library.
\<close>

definition analyse_forever :: "Limit option \<Rightarrow> int option \<Rightarrow> analysis_env
    \<Rightarrow> ContinuousAnalysis \<Rightarrow> py_exn option \<times> ca_action list \<times> ContinuousAnalysis" where
  "analyse_forever lim mpv env s0 =
     (case acquire_raises env of
        Some e \<Rightarrow> (Some e, [], s0)
      | None \<Rightarrow>
          (let s = apply_calls (during_acquire env) s0 in
           case current_game s of
             None \<Rightarrow> (Some AttributeError, [Lease_acquire, Lease_release], s)
           | Some b \<Rightarrow>
               (case analysis_raises env of
                  Some e \<Rightarrow>
                    (Some e, [Lease_acquire, Engine_analysis b lim mpv (game_id s), Lease_release], s)
                | None \<Rightarrow>
                    (case analyse_updates lim (fen b) (game_id s) (updates env)
                            (stream_raises env) s of
                       (x, tr, s1) \<Rightarrow>
                         (x, [Lease_acquire, Engine_analysis b lim mpv (game_id s)] @ tr
                               @ [Analysis_stop, Lease_release], s1)))))"

text \<open>
  The loop of \<^verbatim>\<open>_watching_analyse\<close>. Every iteration has its environment: the calls
  that arrived while the task was suspended, whether the sleep of an idle branch raises,
  and the environment of the analysis it may start. The list of environments bounds the
  number of iterations observed; the loop itself has no bound.
\<close>

record loop_env =
  before :: "ca_call list"
  sleep_raises :: "py_exn option"
  analysis :: analysis_env

definition watching_body :: "loop_env \<Rightarrow> ContinuousAnalysis
    \<Rightarrow> py_exn option \<times> ca_action list \<times> ContinuousAnalysis" where
  "watching_body env s =
     (if \<not> game_analysable (game s) then (sleep_raises env, [Sleep_no_game], s)
      else
        (case game s of
           None \<Rightarrow> (Some AttributeError, [], s)
         | Some g \<Rightarrow>
             if limit_reached s \<and> current_game_id s = game_id s \<and> get_fen s = fen g
             then (sleep_raises env, [Sleep_limited], s)
             else
               analyse_forever (limit s) (multipv s) (analysis env)
                 (s\<lparr>current_game := Some g, limit_reached := False,
                    current_game_id := game_id s, analysis_data := None\<rparr>)))"

fun watching_loop :: "loop_env list \<Rightarrow> ContinuousAnalysis
    \<Rightarrow> py_exn option \<times> ca_action list \<times> ContinuousAnalysis" where
  "watching_loop [] s = (None, [], s)"
| "watching_loop (env # envs) s0 =
     (let s = apply_calls (before env) s0 in
      if \<not> running s then (None, [], s)
      else
        (case watching_body env s of
           (x, tr, s1) \<Rightarrow>
             (if x = Some CancelledError \<or> x = Some EngineTerminatedError
              then (case watching_loop envs (s1\<lparr>ca_task := False, running := False\<rparr>) of
                      (y, tr2, s2) \<Rightarrow> (y, tr @ tr2, s2))
              else if x = None \<or> x = Some AnalysisComplete
              then (case watching_loop envs s1 of (y, tr2, s2) \<Rightarrow> (y, tr @ tr2, s2))
              else (x, tr, s1))))"

definition watching_analyse :: "loop_env list \<Rightarrow> ContinuousAnalysis
    \<Rightarrow> py_exn option \<times> ca_action list \<times> ContinuousAnalysis" where
  "watching_analyse envs s = watching_loop envs (s\<lparr>limit_reached := False\<rparr>)"

text \<open>
  The condition of line 237: the limit was reached, and the tracked game id and position
  string are those of the target.
\<close>

definition at_limit :: "ContinuousAnalysis \<Rightarrow> bool" where
  "at_limit s \<longleftrightarrow>
     limit_reached s \<and> current_game_id s = game_id s
     \<and> (case game s of None \<Rightarrow> False | Some g \<Rightarrow> get_fen s = fen g)"

fun is_update_game :: "ca_call \<Rightarrow> bool" where
  "is_update_game (Update_game _) = True"
| "is_update_game _ = False"

fun is_sleep :: "ca_action \<Rightarrow> bool" where
  "is_sleep Sleep_no_game = True"
| "is_sleep Sleep_limited = True"
| "is_sleep _ = False"

fun is_engine_call :: "ca_action \<Rightarrow> bool" where
  "is_engine_call (Engine_analysis _ _ _ _) = True"
| "is_engine_call _ = False"

text \<open>
  What the stored lines were computed for: the object that \<^verbatim>\<open>_analysis_data\<close>
  refers to was created for the position that the analyser tracks.
\<close>

definition data_for_current :: "ContinuousAnalysis \<Rightarrow> bool" where
  "data_for_current s \<longleftrightarrow>
     (case analysis_data s of
        None \<Rightarrow> True
      | Some an \<Rightarrow> (case current_game s of None \<Rightarrow> False | Some b \<Rightarrow> computed_for an = fen b))"

text \<open>A run that reaches depth 10 on the starting position, then polls.\<close>

definition depth_ten :: Limit where
  "depth_ten = \<lparr>limit_depth = Some 10, limit_details = 0\<rparr>"

definition started_analyser :: ContinuousAnalysis where
  "started_analyser =
     \<lparr>game = Some quiet_board, limit_reached = False, current_game = None, running = True,
      ca_task = True, analysis_data = None, limit = Some depth_ten, multipv = None,
      ca_engine = Some 8, game_id = 1, current_game_id = 1\<rparr>"

definition reaching_depth_ten :: loop_env where
  "reaching_depth_ten =
     \<lparr>before = [], sleep_raises = None,
      analysis =
        \<lparr>acquire_raises = None, during_acquire = [], analysis_raises = None,
         updates =
           [\<lparr>outside = [], interrupted = False, lines = [\<lparr>depth = Some 5, details = 0\<rparr>]\<rparr>,
            \<lparr>outside = [], interrupted = False, lines = [\<lparr>depth = Some 10, details = 1\<rparr>]\<rparr>],
         stream_raises = None\<rparr>\<rparr>"

definition quiet_poll :: loop_env where
  "quiet_poll =
     \<lparr>before = [Update_limit (Some depth_ten), Set_game_id 1], sleep_raises = None,
      analysis = \<lparr>acquire_raises = None, during_acquire = [], analysis_raises = None,
                  updates = [], stream_raises = None\<rparr>\<rparr>"

definition same_position_update :: loop_env where
  "same_position_update =
     \<lparr>before = [Update_game quiet_board], sleep_raises = None,
      analysis = \<lparr>acquire_raises = None, during_acquire = [], analysis_raises = None,
                  updates = [], stream_raises = None\<rparr>\<rparr>"

definition limited_analyser :: ContinuousAnalysis where
  "limited_analyser =
     started_analyser\<lparr>current_game := Some quiet_board, limit_reached := True,
       analysis_data :=
         Some \<lparr>stored = [\<lparr>depth = Some 10, details = 1\<rparr>],
               computed_for = fen quiet_board, computed_under = 1\<rparr>\<rparr>"

text \<open>
  An analysis of the starting position under game id 1 in mid-flight, one update in,
  with no limit.
\<close>

definition mid_flight_analyser :: ContinuousAnalysis where
  "mid_flight_analyser =
     started_analyser\<lparr>current_game := Some quiet_board, limit := None,
       analysis_data :=
         Some \<lparr>stored = [\<lparr>depth = Some 5, details = 0\<rparr>],
               computed_for = fen quiet_board, computed_under = 1\<rparr>\<rparr>"

section \<open>\<^verbatim>\<open>PlayingContinuousAnalysis\<close>\<close>

text \<open>
  A move is a number. \<^verbatim>\<open>latest_info\<close> is \<open>None\<close> for the empty dictionary. The
  fields that share a name with the analyser's carry the prefix \<open>pl_\<close>; \<open>pl_task\<close>
  says whether \<^verbatim>\<open>_task\<close> is set, \<open>waiting\<close> is \<^verbatim>\<open>_waiting\<close>. The methods that
  share a name with the analyser's carry the prefix \<open>Playing_\<close>.
\<close>

record PlayResult =
  move :: "nat option"
  ponder :: "nat option"
  info :: "InfoDict option"
  analysed_fen :: string

record PlayingContinuousAnalysis =
  pl_engine :: "nat option"
  latest_info :: "InfoDict option"
  latest_fen :: string
  waiting :: bool
  pl_task :: bool
  force_event :: bool
  cancel_event :: bool
  allow_info_loop :: bool
  pl_game_id :: int

definition Playing_set_game_id :: "int \<Rightarrow> PlayingContinuousAnalysis \<Rightarrow> PlayingContinuousAnalysis" where
  "Playing_set_game_id n p = p\<lparr>pl_game_id := n\<rparr>"

definition Playing_init :: "nat option \<Rightarrow> bool \<Rightarrow> PlayingContinuousAnalysis" where
  "Playing_init eng allow =
     Playing_set_game_id 1
       \<lparr>pl_engine = eng, latest_info = None, latest_fen = [], waiting = False, pl_task = False,
        force_event = False, cancel_event = False, allow_info_loop = allow, pl_game_id = 0\<rparr>"

definition set_allow_info_loop :: "bool \<Rightarrow> PlayingContinuousAnalysis \<Rightarrow> PlayingContinuousAnalysis" where
  "set_allow_info_loop allow p = p\<lparr>allow_info_loop := allow\<rparr>"

text \<open>
  \<^verbatim>\<open>force\<close> and \<^verbatim>\<open>cancel\<close> write \<^verbatim>\<open>stop\<close> to the engine when it has
  \<^verbatim>\<open>send_line\<close>, which every \<^verbatim>\<open>UciProtocol\<close> has; the lines written are returned
  with the handle of the engine they go to.
\<close>

definition send_stop :: "PlayingContinuousAnalysis \<Rightarrow> (nat \<times> string) list" where
  "send_stop p = (case pl_engine p of None \<Rightarrow> [] | Some h \<Rightarrow> [(h, ''stop'')])"

definition Playing_force :: "PlayingContinuousAnalysis
    \<Rightarrow> PlayingContinuousAnalysis \<times> (nat \<times> string) list" where
  "Playing_force p = (if waiting p then (p\<lparr>force_event := True\<rparr>, send_stop p) else (p, []))"

definition Playing_cancel :: "PlayingContinuousAnalysis
    \<Rightarrow> PlayingContinuousAnalysis \<times> (nat \<times> string) list" where
  "Playing_cancel p = (p\<lparr>cancel_event := True, force_event := True\<rparr>, send_stop p)"

definition is_waiting_for_move :: "PlayingContinuousAnalysis \<Rightarrow> bool" where
  "is_waiting_for_move p = waiting p"

text \<open>The calls of other coroutines that the search task sees while suspended.\<close>

datatype pl_call = Force | Cancel_search

fun apply_pl_call :: "pl_call \<Rightarrow> PlayingContinuousAnalysis \<Rightarrow> PlayingContinuousAnalysis" where
  "apply_pl_call Force p = fst (Playing_force p)"
| "apply_pl_call Cancel_search p = fst (Playing_cancel p)"

fun apply_pl_calls :: "pl_call list \<Rightarrow> PlayingContinuousAnalysis \<Rightarrow> PlayingContinuousAnalysis" where
  "apply_pl_calls [] p = p"
| "apply_pl_calls (c # cs) p = apply_pl_calls cs (apply_pl_call c p)"

text \<open>
  \<^verbatim>\<open>play_move\<close> runs to its end without suspending: it sets the flags and creates the
  task \<^verbatim>\<open>_engine_task\<close>, here the record of the arguments the task closes over. The
  task puts its result on the queue passed to this call.
\<close>

record play_task =
  task_game :: Board
  task_limit :: Limit
  task_ponder :: bool
  task_root_moves :: "nat list option"

definition play_move :: "Board \<Rightarrow> Limit \<Rightarrow> bool \<Rightarrow> nat list option
    \<Rightarrow> PlayingContinuousAnalysis \<Rightarrow> PlayingContinuousAnalysis \<times> play_task" where
  "play_move g lim pon roots p =
     (p\<lparr>waiting := True, latest_info := None, latest_fen := [],
        force_event := False, cancel_event := False, pl_task := True\<rparr>,
      \<lparr>task_game = g, task_limit = lim, task_ponder = pon, task_root_moves = roots\<rparr>)"

text \<open>
  What the task does to its collaborators, in order: the lease granted, the lease
  released, the engine calls, \<^verbatim>\<open>_waiting\<close> cleared, an item put on the result queue.
\<close>

datatype pl_action =
    Pl_lease_acquired
  | Pl_lease_release
  | Pl_engine_analysis
  | Pl_engine_play
  | Pl_analysis_stop
  | Pl_clear_waiting
  | Pl_queue_put "PlayResult option"

text \<open>
  The environment of one run of the task: whether acquiring the lease raises (a
  cancellation while queued), whether opening the analysis raises, the info updates (each
  with the calls that arrived before it and whether \<^verbatim>\<open>analysis.stop()\<close> raises if
  the loop breaks there), how the stream ends when the loop consumes it all, the calls
  that arrive during the final wait, the outcome of \<^verbatim>\<open>analysis.wait()\<close>,
  \<^verbatim>\<open>analysis.info\<close>, and the outcome of \<^verbatim>\<open>engine.play\<close> for the branch without
  info loop.
\<close>

record play_update =
  arrived :: "pl_call list"
  upd_info :: InfoDict
  stop_raises :: "py_exn option"

record best_move =
  best :: "nat option"
  best_ponder :: "nat option"

record play_response =
  resp_move :: "nat option"
  resp_ponder :: "nat option"
  resp_info :: "InfoDict option"

record play_env =
  lease_raises :: "py_exn option"
  open_raises :: "py_exn option"
  play_updates :: "play_update list"
  play_stream_raises :: "py_exn option"
  arrived_late :: "pl_call list"
  wait_outcome :: "py_exn + best_move option"
  final_info :: "InfoDict option"
  play_outcome :: "py_exn + play_response option"

record search_result =
  sr_move :: "nat option"
  sr_ponder :: "nat option"
  sr_info :: "InfoDict option"

fun info_loop :: "play_update list \<Rightarrow> py_exn option \<Rightarrow> PlayingContinuousAnalysis
    \<Rightarrow> py_exn option \<times> pl_action list \<times> PlayingContinuousAnalysis" where
  "info_loop [] fin p = (fin, [], p)"
| "info_loop (u # us) fin p0 =
     (let p = (apply_pl_calls (arrived u) p0)\<lparr>latest_info := Some (upd_info u)\<rparr> in
      if force_event p \<or> cancel_event p
      then (stop_raises u, [Pl_analysis_stop], p)
      else info_loop us fin p)"

definition search_streaming :: "play_env \<Rightarrow> PlayingContinuousAnalysis
    \<Rightarrow> (py_exn + search_result) \<times> pl_action list \<times> PlayingContinuousAnalysis" where
  "search_streaming env p =
     (case open_raises env of
        Some e \<Rightarrow> (Inl e, [Pl_engine_analysis], p)
      | None \<Rightarrow>
          (case info_loop (play_updates env) (play_stream_raises env) p of
             (Some e, tr, p1) \<Rightarrow> (Inl e, Pl_engine_analysis # tr, p1)
           | (None, tr, p1) \<Rightarrow>
               (let p2 = apply_pl_calls (arrived_late env) p1;
                    tr2 = Pl_engine_analysis # tr @ [Pl_analysis_stop]
                in case wait_outcome env of
                     Inl e \<Rightarrow>
                       if e = CancelledError then (Inl e, tr2, p2)
                       else (Inr \<lparr>sr_move = None, sr_ponder = None, sr_info = final_info env\<rparr>,
                             tr2, p2)
                   | Inr None \<Rightarrow>
                       (Inr \<lparr>sr_move = None, sr_ponder = None, sr_info = final_info env\<rparr>,
                        tr2, p2)
                   | Inr (Some b) \<Rightarrow>
                       (Inr \<lparr>sr_move = best b, sr_ponder = best_ponder b,
                             sr_info = final_info env\<rparr>, tr2, p2))))"

definition search_blocking :: "play_env \<Rightarrow> PlayingContinuousAnalysis
    \<Rightarrow> (py_exn + search_result) \<times> pl_action list \<times> PlayingContinuousAnalysis" where
  "search_blocking env p0 =
     (let p = apply_pl_calls (arrived_late env) p0 in
      case play_outcome env of
        Inl e \<Rightarrow> (Inl e, [Pl_engine_play], p)
      | Inr None \<Rightarrow>
          (Inr \<lparr>sr_move = None, sr_ponder = None, sr_info = None\<rparr>, [Pl_engine_play], p)
      | Inr (Some r) \<Rightarrow>
          (Inr \<lparr>sr_move = resp_move r, sr_ponder = resp_ponder r, sr_info = resp_info r\<rparr>,
           [Pl_engine_play], p\<lparr>latest_info := resp_info r\<rparr>))"

text \<open>
  The local variables that the \<^verbatim>\<open>finally\<close> block reads, and the exception that
  leaves the task. \<open>on_exception\<close> is the three handlers in their order.
\<close>

record task_outcome =
  lease_acquired :: bool
  should_queue :: bool
  queue_payload :: "PlayResult option"
  raised :: "py_exn option"

definition on_exception :: "bool \<Rightarrow> py_exn \<Rightarrow> task_outcome" where
  "on_exception acquired e =
     (if e = CancelledError
      then \<lparr>lease_acquired = acquired, should_queue = True, queue_payload = None,
            raised = Some e\<rparr>
      else if e = EngineTerminatedError \<or> e = EngineError
      then \<lparr>lease_acquired = acquired, should_queue = True, queue_payload = None,
            raised = None\<rparr>
      else if is_Exception e
      then \<lparr>lease_acquired = acquired, should_queue = True, queue_payload = None,
            raised = None\<rparr>
      else \<lparr>lease_acquired = acquired, should_queue = False, queue_payload = None,
            raised = Some e\<rparr>)"

definition engine_task_try :: "play_env \<Rightarrow> play_task \<Rightarrow> PlayingContinuousAnalysis
    \<Rightarrow> task_outcome \<times> pl_action list \<times> PlayingContinuousAnalysis" where
  "engine_task_try env t p0 =
     (case lease_raises env of
        Some e \<Rightarrow> (on_exception False e, [], p0)
      | None \<Rightarrow>
          (let p = p0\<lparr>latest_fen := fen (task_game t)\<rparr> in
           case (if allow_info_loop p then search_streaming env p else search_blocking env p) of
             (Inl e, tr, p1) \<Rightarrow> (on_exception True e, Pl_lease_acquired # tr, p1)
           | (Inr r, tr, p1) \<Rightarrow>
               (if cancel_event p1
                then \<lparr>lease_acquired = True, should_queue = True, queue_payload = None,
                      raised = None\<rparr>
                else \<lparr>lease_acquired = True, should_queue = True,
                      queue_payload =
                        Some \<lparr>move = sr_move r, ponder = sr_ponder r, info = sr_info r,
                              analysed_fen = latest_fen p1\<rparr>,
                      raised = None\<rparr>,
                Pl_lease_acquired # tr, p1)))"

definition engine_task_finally :: "task_outcome \<Rightarrow> PlayingContinuousAnalysis
    \<Rightarrow> pl_action list \<times> PlayingContinuousAnalysis" where
  "engine_task_finally out p =
     (Pl_clear_waiting
        # (if lease_acquired out then [Pl_lease_release] else [])
        @ (if should_queue out then [Pl_queue_put (queue_payload out)] else []),
      p\<lparr>waiting := False\<rparr>)"

definition engine_task :: "play_env \<Rightarrow> play_task \<Rightarrow> PlayingContinuousAnalysis
    \<Rightarrow> py_exn option \<times> pl_action list \<times> PlayingContinuousAnalysis" where
  "engine_task env t p =
     (case engine_task_try env t p of
        (out, tr, p1) \<Rightarrow>
          (case engine_task_finally out p1 of
             (tr2, p2) \<Rightarrow> (raised out, tr @ tr2, p2)))"

text \<open>The items put on the result queue, read off a trace.\<close>

definition delivered :: "pl_action list \<Rightarrow> PlayResult option list" where
  "delivered tr = concat (map (\<lambda>a. case a of Pl_queue_put r \<Rightarrow> [r] | _ \<Rightarrow> []) tr)"

fun is_search_action :: "pl_action \<Rightarrow> bool" where
  "is_search_action Pl_engine_analysis = True"
| "is_search_action Pl_engine_play = True"
| "is_search_action Pl_analysis_stop = True"
| "is_search_action _ = False"

text \<open>
  \<^verbatim>\<open>play_move\<close> only creates the task; the event loop runs it later. Until then
  another coroutine may cancel it: \<^verbatim>\<open>abort\<close> calls \<^verbatim>\<open>self._task.cancel()\<close> when
  \<^verbatim>\<open>_task\<close> is set and not done (\<open>abort\<close> says whether it does so, given whether
  the task is done). A task cancelled before its first step never starts its coroutine:
  \<^verbatim>\<open>CancelledError\<close> is thrown into it at the top of \<^verbatim>\<open>_engine_task\<close>, before
  the \<^verbatim>\<open>try\<close>, so neither the handlers nor the \<^verbatim>\<open>finally\<close> block run. A task
  that starts runs in its environment.
\<close>

definition abort :: "bool \<Rightarrow> PlayingContinuousAnalysis \<Rightarrow> bool" where
  "abort task_done p = (pl_task p \<and> \<not> task_done)"

datatype task_run = Cancelled_before_start | Runs play_env

fun run_task :: "task_run \<Rightarrow> play_task \<Rightarrow> PlayingContinuousAnalysis
    \<Rightarrow> py_exn option \<times> pl_action list \<times> PlayingContinuousAnalysis" where
  "run_task Cancelled_before_start t p = (Some CancelledError, [], p)"
| "run_task (Runs env) t p = engine_task env t p"

text \<open>An invocation of \<^verbatim>\<open>play_move\<close> followed by what becomes of the task it created.\<close>

definition play_move_run :: "task_run \<Rightarrow> Board \<Rightarrow> Limit \<Rightarrow> bool \<Rightarrow> nat list option
    \<Rightarrow> PlayingContinuousAnalysis
    \<Rightarrow> py_exn option \<times> pl_action list \<times> PlayingContinuousAnalysis" where
  "play_move_run r g lim pon roots p0 =
     (case play_move g lim pon roots p0 of (p, t) \<Rightarrow> run_task r t p)"

text \<open>Two runs: a search that is forced to move, and a task cancelled while it queues for the lease.\<close>

definition idle_playing :: PlayingContinuousAnalysis where
  "idle_playing = Playing_init (Some 0) True"

definition forced_search :: play_env where
  "forced_search =
     \<lparr>lease_raises = None, open_raises = None,
      play_updates =
        [\<lparr>arrived = [], upd_info = \<lparr>depth = Some 3, details = 0\<rparr>, stop_raises = None\<rparr>,
         \<lparr>arrived = [Force], upd_info = \<lparr>depth = Some 4, details = 1\<rparr>, stop_raises = None\<rparr>],
      play_stream_raises = None, arrived_late = [],
      wait_outcome = Inr (Some \<lparr>best = Some 12, best_ponder = Some 52\<rparr>),
      final_info = Some \<lparr>depth = Some 4, details = 1\<rparr>,
      play_outcome = Inr None\<rparr>"

definition cancelled_in_queue :: play_env where
  "cancelled_in_queue = forced_search\<lparr>lease_raises := Some CancelledError\<rparr>"

section \<open>\<^verbatim>\<open>UciEngine\<close>\<close>

text \<open>
  The session record has the attributes that the modelled methods read or write. The
  engine and the transport are handles (numbers) of the objects that
  \<^verbatim>\<open>chess.engine.popen_uci\<close> returns; \<^verbatim>\<open>game_id\<close> is \<open>ue_game_id\<close>;
  \<^verbatim>\<open>is_mame\<close> is computed from the file name at construction. The methods
  \<^verbatim>\<open>go\<close>, \<^verbatim>\<open>start_analysis\<close> and \<^verbatim>\<open>newgame\<close> run under
  \<^verbatim>\<open>engine_lock\<close>, so each is one step of the session.
\<close>

record UciEngine =
  engine :: "nat option"
  transport :: "nat option"
  analyser :: "ContinuousAnalysis option"
  playing :: "PlayingContinuousAnalysis option"
  engine_lease :: "EngineLease option"
  ue_game_id :: int
  is_mame :: bool
  legacy_analysis_mode :: bool
  engine_name :: string
  pondering :: bool

text \<open>Python's \<^verbatim>\<open>pat in s\<close> on strings.\<close>

fun starts_with :: "string \<Rightarrow> string \<Rightarrow> bool" where
  "starts_with [] s = True"
| "starts_with (c # cs) [] = False"
| "starts_with (c # cs) (d # ds) = (c = d \<and> starts_with cs ds)"

fun str_in :: "string \<Rightarrow> string \<Rightarrow> bool" where
  "str_in pat [] = starts_with pat []"
| "str_in pat (d # ds) = (starts_with pat (d # ds) \<or> str_in pat ds)"

definition UciEngine_init :: "bool \<Rightarrow> UciEngine" where
  "UciEngine_init mame =
     \<lparr>engine = None, transport = None, analyser = None, playing = None, engine_lease = None,
      ue_game_id = 1, is_mame = mame, legacy_analysis_mode = False, engine_name = ''NN'',
      pondering = False\<rparr>"

definition should_disable_info_loop :: "UciEngine \<Rightarrow> bool" where
  "should_disable_info_loop s \<longleftrightarrow> is_mame s \<or> legacy_analysis_mode s"

definition loaded_ok :: "UciEngine \<Rightarrow> bool" where
  "loaded_ok s \<longleftrightarrow> engine s \<noteq> None"

text \<open>
  What \<^verbatim>\<open>popen_uci\<close> returns when the process starts: the two handles and the name
  under \<^verbatim>\<open>engine.id["name"]\<close>, if the engine states one. When it raises, the three
  handlers of \<^verbatim>\<open>open_engine\<close> and \<^verbatim>\<open>reopen_engine\<close> catch \<^verbatim>\<open>OSError\<close>,
  \<^verbatim>\<open>TypeError\<close> and \<^verbatim>\<open>EngineTerminatedError\<close>. \<^verbatim>\<open>asyncio.TimeoutError\<close> is a
  subclass of \<^verbatim>\<open>OSError\<close> from Python 3.11 on and a class of its own before; the
  parameter \<open>timeout_is_oserror\<close> says which. \<open>open_engine\<close> returns the exception that
  reaches the caller, if any, and the session.
\<close>

record popen_result =
  new_transport :: nat
  new_engine :: nat
  id_name :: "string option"

definition caught_on_open :: "bool \<Rightarrow> py_exn \<Rightarrow> bool" where
  "caught_on_open timeout_is_oserror e \<longleftrightarrow>
     e = OSError \<or> (timeout_is_oserror \<and> e = TimeoutError)
     \<or> e = TypeError \<or> e = EngineTerminatedError"

definition open_failed :: "UciEngine \<Rightarrow> UciEngine" where
  "open_failed s = s\<lparr>transport := None, engine := None\<rparr>"

definition open_engine :: "bool \<Rightarrow> py_exn + popen_result \<Rightarrow> UciEngine
    \<Rightarrow> py_exn option \<times> UciEngine" where
  "open_engine timeout_is_oserror popen s =
     (case popen of
        Inl e \<Rightarrow> if caught_on_open timeout_is_oserror e then (None, open_failed s) else (Some e, s)
      | Inr r \<Rightarrow>
          (let s1 = s\<lparr>transport := Some (new_transport r), engine := Some (new_engine r),
                      engine_lease := Some lease_init,
                      analyser :=
                        Some (set_game_id (ue_game_id s)
                                (ContinuousAnalysis_init (Some (new_engine r)))),
                      playing :=
                        Some (Playing_set_game_id (ue_game_id s)
                                (Playing_init (Some (new_engine r))
                                   (\<not> should_disable_info_loop s)))\<rparr>
           in (None, case id_name r of None \<Rightarrow> s1 | Some n \<Rightarrow> s1\<lparr>engine_name := n\<rparr>)))"

text \<open>
  \<^verbatim>\<open>quit\<close> cancels the sisters, then shuts the process down: for an engine that is
  not a MAME engine, \<^verbatim>\<open>_shutdown_standard_engine\<close> ends with transport and engine
  cleared. Its awaits can be cancelled; \<open>raises\<close> is the exception that then leaves
  \<^verbatim>\<open>quit\<close>, taken before the handles are cleared.
\<close>

definition quit_sisters :: "UciEngine \<Rightarrow> UciEngine \<times> (nat \<times> string) list" where
  "quit_sisters s =
     (let s1 = (case analyser s of
                  None \<Rightarrow> s
                | Some a \<Rightarrow> if is_running a then s\<lparr>analyser := Some (cancel a)\<rparr> else s)
      in case playing s1 of
           None \<Rightarrow> (s1, [])
         | Some p \<Rightarrow>
             if is_waiting_for_move p
             then (s1\<lparr>playing := Some (fst (Playing_cancel p))\<rparr>, snd (Playing_cancel p))
             else (s1, []))"

definition quit :: "py_exn option \<Rightarrow> UciEngine
    \<Rightarrow> py_exn option \<times> UciEngine \<times> (nat \<times> string) list" where
  "quit raises s =
     (case quit_sisters s of
        (s1, sent) \<Rightarrow>
          (case raises of
             Some e \<Rightarrow> (Some e, s1, sent)
           | None \<Rightarrow>
               if is_mame s1 then (None, s1, sent)
               else (None, s1\<lparr>transport := None, engine := None\<rparr>, sent)))"

text \<open>
  The environment of \<^verbatim>\<open>reopen_engine\<close>: the exception leaving \<^verbatim>\<open>quit\<close>, the
  outcome of \<^verbatim>\<open>popen_uci\<close>, and the exception leaving \<^verbatim>\<open>send\<close> (which handles
  \<^verbatim>\<open>EngineError\<close> itself). \<open>reopen_try\<close> is the body of the \<^verbatim>\<open>try\<close>.
\<close>

record reopen_env =
  on_quit :: "py_exn option"
  on_popen :: "py_exn + popen_result"
  on_send :: "py_exn option"

definition reopen_started :: "popen_result \<Rightarrow> UciEngine \<Rightarrow> UciEngine" where
  "reopen_started r s =
     s\<lparr>transport := Some (new_transport r), engine := Some (new_engine r),
       analyser := map_option (\<lambda>a. a\<lparr>ca_engine := Some (new_engine r)\<rparr>) (analyser s),
       playing := map_option (\<lambda>p. p\<lparr>pl_engine := Some (new_engine r)\<rparr>) (playing s)\<rparr>"

definition reopen_try :: "reopen_env \<Rightarrow> UciEngine \<Rightarrow> (py_exn + bool) \<times> UciEngine" where
  "reopen_try env s =
     (case quit (on_quit env) s of
        (Some e, s1, sent) \<Rightarrow> (Inl e, s1)
      | (None, s1, sent) \<Rightarrow>
          (case on_popen env of
             Inl e \<Rightarrow> (Inl e, s1)
           | Inr r \<Rightarrow>
               (let s2 = reopen_started r s1 in
                case id_name r of
                  None \<Rightarrow> (Inr False, s2)
                | Some n \<Rightarrow>
                    (case on_send env of
                       Some e \<Rightarrow> (Inl e, s2\<lparr>engine_name := n\<rparr>)
                     | None \<Rightarrow> (Inr True, s2\<lparr>engine_name := n\<rparr>)))))"

definition reopen_engine :: "bool \<Rightarrow> reopen_env \<Rightarrow> UciEngine \<Rightarrow> (py_exn + bool) \<times> UciEngine" where
  "reopen_engine timeout_is_oserror env s =
     (case reopen_try env s of
        (Inl e, s1) \<Rightarrow>
          if caught_on_open timeout_is_oserror e then (Inr False, open_failed s1)
          else (Inl e, s1)
      | (Inr b, s1) \<Rightarrow> (Inr b, s1))"

text \<open>
  \<^verbatim>\<open>newgame\<close> returns the session and the lines written to engines, each with the
  handle it is written to: \<^verbatim>\<open>stop\<close> from \<^verbatim>\<open>playing.cancel()\<close>, then
  \<^verbatim>\<open>ucinewgame\<close>.
\<close>

definition needs_ucinewgame :: "UciEngine \<Rightarrow> bool" where
  "needs_ucinewgame s \<longleftrightarrow> is_mame s \<or> str_in ''PGN Replay'' (engine_name s)"

definition newgame :: "Board \<Rightarrow> bool \<Rightarrow> UciEngine \<Rightarrow> UciEngine \<times> (nat \<times> string) list" where
  "newgame g send_ucinewgame s =
     (case engine s of
        None \<Rightarrow> (s, [])
      | Some eng \<Rightarrow>
          (let gid = ue_game_id s + 1;
               s1 = s\<lparr>ue_game_id := gid\<rparr>;
               s2 = (case analyser s1 of
                       None \<Rightarrow> s1
                     | Some a \<Rightarrow> s1\<lparr>analyser := Some (update_game g (set_game_id gid a))\<rparr>);
               s3 = (case playing s2 of
                       None \<Rightarrow> s2
                     | Some p \<Rightarrow>
                         s2\<lparr>playing := Some (fst (Playing_cancel (Playing_set_game_id gid p)))\<rparr>);
               sent = (case playing s2 of
                         None \<Rightarrow> []
                       | Some p \<Rightarrow> snd (Playing_cancel (Playing_set_game_id gid p)))
           in (s3, sent @ (if needs_ucinewgame s \<and> send_ucinewgame
                           then [(eng, ''ucinewgame'')] else []))))"

text \<open>
  \<^verbatim>\<open>go\<close> takes the outcome of \<^verbatim>\<open>get_engine_limit\<close> and
  \<^verbatim>\<open>get_engine_uci_options\<close> (the limit, or the \<^verbatim>\<open>ValueError\<close> of a malformed
  option) and returns the session and the task that \<^verbatim>\<open>play_move\<close> created, if it
  was called. \<open>go_run\<close> is what reaches the result queue passed to \<^verbatim>\<open>go\<close> once the
  created task has run or was cancelled before it started.
\<close>

definition go :: "py_exn + Limit \<Rightarrow> Board \<Rightarrow> nat list option \<Rightarrow> UciEngine
    \<Rightarrow> py_exn + UciEngine \<times> play_task option" where
  "go limit_outcome g roots s =
     (case engine s of
        None \<Rightarrow> Inr (s, None)
      | Some eng \<Rightarrow>
          (case playing s of
             None \<Rightarrow> Inr (s, None)
           | Some p \<Rightarrow>
               (case limit_outcome of
                  Inl e \<Rightarrow> Inl e
                | Inr lim \<Rightarrow>
                    (case play_move g lim (pondering s) roots p of
                       (p1, t) \<Rightarrow> Inr (s\<lparr>playing := Some p1\<rparr>, Some t)))))"

definition go_run :: "task_run \<Rightarrow> py_exn + Limit \<Rightarrow> Board \<Rightarrow> nat list option \<Rightarrow> UciEngine
    \<Rightarrow> PlayResult option list" where
  "go_run r limit_outcome g roots s =
     (case go limit_outcome g roots s of
        Inl e \<Rightarrow> []
      | Inr (s1, None) \<Rightarrow> []
      | Inr (s1, Some t) \<Rightarrow>
          (case playing s1 of
             None \<Rightarrow> []
           | Some p \<Rightarrow> delivered (fst (snd (run_task r t p)))))"

text \<open>
  \<^verbatim>\<open>self.analyser and self.analyser.is_running()\<close>. \<open>start_analysis\<close> returns its
  result, the session, and whether the analyser's task was created; calling
  \<^verbatim>\<open>start\<close> on a missing analyser raises.
\<close>

definition analyser_running :: "UciEngine \<Rightarrow> ContinuousAnalysis option" where
  "analyser_running s =
     (case analyser s of None \<Rightarrow> None | Some a \<Rightarrow> if is_running a then Some a else None)"

definition limit_changed :: "Limit option \<Rightarrow> ContinuousAnalysis \<Rightarrow> bool" where
  "limit_changed lim a =
     (case lim of None \<Rightarrow> False | Some l \<Rightarrow> limit_depth l \<noteq> get_limit_depth a)"

definition start_analysis :: "Board \<Rightarrow> Limit option \<Rightarrow> int option \<Rightarrow> UciEngine
    \<Rightarrow> py_exn + bool \<times> UciEngine \<times> bool" where
  "start_analysis g lim mpv s =
     (case analyser_running s of
        Some a \<Rightarrow>
          (let a1 = (if limit_changed lim a then update_limit lim a else a) in
           if fen g \<noteq> get_fen a1
           then Inr (False, s\<lparr>analyser := Some (update_game g a1)\<rparr>, False)
           else Inr (True, s\<lparr>analyser := Some a1\<rparr>, False))
      | None \<Rightarrow>
          (case engine s of
             None \<Rightarrow> Inr (False, s, False)
           | Some eng \<Rightarrow>
               (case playing s of
                  None \<Rightarrow> Inr (False, s, False)
                | Some p \<Rightarrow>
                    if \<not> is_waiting_for_move p
                    then (case analyser s of
                            None \<Rightarrow> Inl AttributeError
                          | Some a \<Rightarrow>
                              (case start g lim mpv a of
                                 (created, a1) \<Rightarrow>
                                   Inr (False, s\<lparr>analyser := Some a1\<rparr>, created)))
                    else Inr (False, s, False))))"

text \<open>The answer \<^verbatim>\<open>{"info": [], "fen": ""}\<close> and \<^verbatim>\<open>UciEngine.get_analysis\<close>.\<close>

definition empty_result :: analysis_result where
  "empty_result = \<lparr>res_info = Some [], res_fen = [], res_game = None\<rparr>"

definition UciEngine_get_analysis :: "Board \<Rightarrow> UciEngine \<Rightarrow> py_exn + analysis_result" where
  "UciEngine_get_analysis g s =
     (case analyser_running s of
        Some a \<Rightarrow> if get_fen a = fen g then get_analysis a else Inr empty_result
      | None \<Rightarrow> Inr empty_result)"

text \<open>
  The game ids of the sisters are the session's: \<^verbatim>\<open>open_engine\<close> and \<^verbatim>\<open>newgame\<close>
  set them through \<^verbatim>\<open>set_game_id\<close>, which writes both ids of the analyser.
\<close>

definition ids_in_sync :: "UciEngine \<Rightarrow> bool" where
  "ids_in_sync s \<longleftrightarrow>
     (case analyser s of
        None \<Rightarrow> True
      | Some a \<Rightarrow> game_id a = ue_game_id s \<and> current_game_id a = ue_game_id s)
     \<and> (case playing s of None \<Rightarrow> True | Some p \<Rightarrow> pl_game_id p = ue_game_id s)"

text \<open>Sessions for the examples: opened, analysing the starting position, thinking.\<close>

definition loaded_session :: UciEngine where
  "loaded_session =
     snd (open_engine False
            (Inr \<lparr>new_transport = 7, new_engine = 8, id_name = Some ''Stockfish''\<rparr>)
            (UciEngine_init False))"

definition analysing_session :: UciEngine where
  "analysing_session =
     loaded_session\<lparr>analyser := Some limited_analyser\<rparr>"

text \<open>A session in the middle of an analysis of the starting position under game id 1.\<close>

definition mid_flight_session :: UciEngine where
  "mid_flight_session = loaded_session\<lparr>analyser := Some mid_flight_analyser\<rparr>"

definition thinking_session :: UciEngine where
  "thinking_session =
     loaded_session
       \<lparr>playing :=
          Some (fst (play_move quiet_board depth_ten False None (Playing_init (Some 8) True)))\<rparr>"

definition after_e4 :: Board where
  "after_e4 =
     quiet_board\<lparr>fen := ''rnbqkbnr/pppppppp/8/8/4P3/8/PPPP1PPP/RNBQKBNR b KQkq - 0 1'',
       turn := BLACK\<rparr>"

definition pgn_replay_session :: UciEngine where
  "pgn_replay_session = thinking_session\<lparr>engine_name := ''PGN Replay Engine''\<rparr>"

definition popen_not_found :: reopen_env where
  "popen_not_found = \<lparr>on_quit = None, on_popen = Inl OSError, on_send = None\<rparr>"

section \<open>Properties\<close>

subsection \<open>Null-move resolution\<close>

text \<open>
  C6. For every board, \<^verbatim>\<open>handle_bestmove_0000\<close> returns the side to move as the loser
  when the board is checkmate (\<^verbatim>\<open>0-1\<close> with White to move, \<^verbatim>\<open>1-0\<close> with Black);
  \<^verbatim>\<open>1/2-1/2\<close> when the board is stalemate, insufficient material, the 75-move rule
  or fivefold repetition (the checkmate test comes first in the code; the rules library
  never reports checkmate together with one of these); otherwise the resignation result
  with the side not to move as the winner when the engine answers the ping in time; and
  \<^verbatim>\<open>*\<close>, never a resignation, when the engine is absent, the ping times out or the
  engine is terminated.
\<close>

theorem handle_bestmove_0000_classification:
  "(is_checkmate board \<longrightarrow>
      handle_bestmove_0000 present ping board
        = Inr (if turn board = WHITE then ''0-1'' else ''1-0''))
   \<and> (\<not> is_checkmate board \<and> terminal_draw board \<longrightarrow>
      handle_bestmove_0000 present ping board = Inr ''1/2-1/2'')
   \<and> (\<not> is_checkmate board \<and> \<not> terminal_draw board \<and> present \<and> ping = None \<longrightarrow>
      handle_bestmove_0000 present ping board
        = Inr (if turn board = WHITE then ''0-1'' else ''1-0''))
   \<and> (\<not> is_checkmate board \<and> \<not> terminal_draw board
        \<and> (\<not> present \<or> ping = Some TimeoutError \<or> ping = Some EngineTerminatedError) \<longrightarrow>
      handle_bestmove_0000 present ping board = Inr ''*''
      \<and> handle_bestmove_0000 present ping board \<noteq> Inr (resignation_result board))"
  by (auto simp: handle_bestmove_0000_def terminal_draw_def resignation_result_def)

theorem handle_bestmove_0000_classification_witness:
  "handle_bestmove_0000 True None (quiet_board\<lparr>is_checkmate := True\<rparr>) = Inr ''0-1''
   \<and> handle_bestmove_0000 True None (quiet_board\<lparr>is_stalemate := True, turn := BLACK\<rparr>)
       = Inr ''1/2-1/2''
   \<and> handle_bestmove_0000 True None (quiet_board\<lparr>turn := BLACK\<rparr>) = Inr ''1-0''
   \<and> handle_bestmove_0000 True (Some TimeoutError) quiet_board = Inr ''*''
   \<and> handle_bestmove_0000 False None quiet_board = Inr ''*''"
  using handle_bestmove_0000_classification [of "quiet_board\<lparr>is_checkmate := True\<rparr>" True None]
    handle_bestmove_0000_classification
      [of "quiet_board\<lparr>is_stalemate := True, turn := BLACK\<rparr>" True None]
    handle_bestmove_0000_classification [of "quiet_board\<lparr>turn := BLACK\<rparr>" True None]
    handle_bestmove_0000_classification [of quiet_board True "Some TimeoutError"]
    handle_bestmove_0000_classification [of quiet_board False None]
  by (simp add: terminal_draw_def)

subsection \<open>The lease\<close>

lemma lease_inv_init: "lease_inv lease_init"
  by (simp add: lease_inv_def lease_init_def)

lemma lease_step_inv: "lease_inv l \<Longrightarrow> lease_step e l = Some l' \<Longrightarrow> lease_inv l'"
  by (cases e)
     (auto simp: lease_inv_def acquire_call_def acquire_granted_def acquire_wakeup_def
        acquire_cancelled_def acquire_failed_def drop_waiter_def release_def Let_def
        split: if_splits list.splits)

lemma lease_run_inv: "lease_inv l \<Longrightarrow> lease_run es l = Some l' \<Longrightarrow> lease_inv l'"
  by (induction es arbitrary: l) (auto split: option.splits dest: lease_step_inv)

lemma lease_run_snoc:
  "lease_run (es @ [e]) l =
     (case lease_run es l of None \<Rightarrow> None | Some l' \<Rightarrow> lease_step e l')"
  by (induction es arbitrary: l) (auto split: option.splits)

lemma lease_step_keeps_holder:
  "lease_owner l = Some ow \<Longrightarrow> locked l \<Longrightarrow> lease_step e l = Some l' \<Longrightarrow> e \<noteq> Release ow
   \<Longrightarrow> lease_owner l' = Some ow \<and> locked l'"
  by (cases e)
     (auto simp: acquire_call_def acquire_granted_def acquire_wakeup_def
        acquire_cancelled_def acquire_failed_def drop_waiter_def release_def Let_def
        split: if_splits list.splits)

lemma program_order_snoc:
  "program_order (es @ [e]) l \<longleftrightarrow>
     program_order es l \<and>
     (\<exists>l'. lease_run es l = Some l' \<and> may_call e l' \<and> lease_step e l' \<noteq> None)"
  by (induction es arbitrary: l) (auto split: option.splits)

lemma has_released_Nil: "has_released ow []"
  by (simp add: has_released_def)

lemma has_released_snoc:
  "has_released ow (es @ [e]) =
     (if is_call_of ow e then e = Release ow else has_released ow es)"
  by (simp add: has_released_def)

lemma pending_drop_waiter: "pending (drop_waiter i l) \<subseteq> pending l"
  by (auto simp: pending_def drop_waiter_def dest!: in_set_takeD in_set_dropD)

lemma acquire_call_effect:
  "pending (acquire_call ow p l) \<subseteq> insert ow (pending l)
   \<and> (lease_owner (acquire_call ow p l) = lease_owner l
      \<or> lease_owner (acquire_call ow p l) = Some ow)"
  by (auto simp: pending_def acquire_call_def acquire_granted_def Let_def)

lemma acquire_wakeup_effect:
  assumes "acquire_wakeup l = Some l'"
  shows "pending l' \<subseteq> pending l \<and> (\<exists>ow \<in> pending l. lease_owner l' = Some ow)"
proof -
  from assms obtain ow req ws where w: "waiters l = (ow, req) # ws"
    and l': "l' = acquire_granted ow (l\<lparr>locked := True, waiters := ws\<rparr>)"
    by (auto simp: acquire_wakeup_def split: list.splits if_splits)
  have "pending l' = fst ` set ws"
    by (simp add: l' pending_def acquire_granted_def)
  moreover have "pending l = insert ow (fst ` set ws)"
    by (simp add: w pending_def)
  moreover have "lease_owner l' = Some ow"
    by (simp add: l' acquire_granted_def)
  ultimately show ?thesis by auto
qed

lemma acquire_cancelled_effect:
  assumes "acquire_cancelled i l = Some l'"
  shows "pending l' \<subseteq> pending l \<and> lease_owner l' = lease_owner l"
proof -
  from assms have l': "l' = drop_waiter i l"
    by (simp add: acquire_cancelled_def split: if_splits)
  show ?thesis
    using pending_drop_waiter [of i l] by (simp add: l' drop_waiter_def)
qed

lemma acquire_failed_effect:
  assumes "acquire_failed i l = Some l'"
  shows "pending l' \<subseteq> pending l \<and> lease_owner l' = lease_owner l"
proof -
  from assms have "pending l' = pending (drop_waiter i l)
      \<and> lease_owner l' = lease_owner (drop_waiter i l)"
    by (auto simp: acquire_failed_def pending_def Let_def split: if_splits)
  then show ?thesis
    using pending_drop_waiter [of i l] by (simp add: drop_waiter_def)
qed

lemma release_effect:
  "pending (release ow l) = pending l
   \<and> lease_owner (release ow l) \<noteq> Some ow
   \<and> (lease_owner (release ow l) = lease_owner l \<or> lease_owner (release ow l) = None)"
  by (auto simp: pending_def release_def Let_def)

lemma engaged_step:
  assumes st: "lease_step e l = Some l'" and mc: "may_call e l" and en: "engaged ow l'"
  shows "(is_call_of ow e \<and> e \<noteq> Release ow) \<or> (\<not> is_call_of ow e \<and> engaged ow l)"
proof (cases e)
  case (Acquire a p)
  then have l': "l' = acquire_call a p l" using st by simp
  show ?thesis
  proof (cases "a = ow")
    case True
    then show ?thesis by (simp add: Acquire)
  next
    case False
    with en acquire_call_effect [of a p l] have "engaged ow l"
      unfolding engaged_def l' by auto
    with False show ?thesis by (simp add: Acquire)
  qed
next
  case Wakeup
  then have "acquire_wakeup l = Some l'" using st by simp
  from acquire_wakeup_effect [OF this] en have "engaged ow l"
    unfolding engaged_def by auto
  then show ?thesis by (simp add: Wakeup)
next
  case (WaitCancelled i)
  then have "acquire_cancelled i l = Some l'" using st by simp
  from acquire_cancelled_effect [OF this] en have "engaged ow l"
    unfolding engaged_def by auto
  then show ?thesis by (simp add: WaitCancelled)
next
  case (WaitFailed i)
  then have "acquire_failed i l = Some l'" using st by simp
  from acquire_failed_effect [OF this] en have "engaged ow l"
    unfolding engaged_def by auto
  then show ?thesis by (simp add: WaitFailed)
next
  case (Release a)
  then have l': "l' = release a l" using st by simp
  show ?thesis
  proof (cases "a = ow")
    case True
    with mc Release have "ow \<notin> pending l" by simp
    with en release_effect [of ow l] True have False
      unfolding engaged_def l' by auto
    then show ?thesis ..
  next
    case False
    with en release_effect [of a l] have "engaged ow l"
      unfolding engaged_def l' by auto
    with False show ?thesis by (simp add: Release)
  qed
qed

lemma engaged_not_released:
  "program_order es lease_init \<Longrightarrow> lease_run es lease_init = Some l \<Longrightarrow> engaged ow l
   \<Longrightarrow> \<not> has_released ow es"
proof (induction es arbitrary: l rule: rev_induct)
  case Nil
  then show ?case by (auto simp: engaged_def lease_init_def pending_def)
next
  case (snoc e es)
  from snoc.prems(1) obtain l0 where
    po: "program_order es lease_init" and run0: "lease_run es lease_init = Some l0"
    and mc: "may_call e l0"
    by (auto simp: program_order_snoc)
  from snoc.prems(2) run0 have st: "lease_step e l0 = Some l"
    by (simp add: lease_run_snoc)
  from engaged_step [OF st mc snoc.prems(3)]
  show ?case
  proof
    assume "is_call_of ow e \<and> e \<noteq> Release ow"
    then show ?thesis by (simp add: has_released_snoc)
  next
    assume h: "\<not> is_call_of ow e \<and> engaged ow l0"
    with snoc.IH [OF po run0] show ?thesis by (simp add: has_released_snoc)
  qed
qed

lemma owners_within_step:
  assumes st: "lease_step e l = Some l'" and tp: "event_by P e" and tps: "owners_within P l"
  shows "owners_within P l'"
proof (cases e)
  case (Acquire a p)
  then have l': "l' = acquire_call a p l" using st by simp
  from tp Acquire have "a \<in> P" by simp
  with tps acquire_call_effect [of a p l] show ?thesis
    unfolding owners_within_def l' by auto
next
  case Wakeup
  then have "acquire_wakeup l = Some l'" using st by simp
  from acquire_wakeup_effect [OF this] tps show ?thesis
    unfolding owners_within_def by auto
next
  case (WaitCancelled i)
  then have "acquire_cancelled i l = Some l'" using st by simp
  from acquire_cancelled_effect [OF this] tps show ?thesis
    unfolding owners_within_def by auto
next
  case (WaitFailed i)
  then have "acquire_failed i l = Some l'" using st by simp
  from acquire_failed_effect [OF this] tps show ?thesis
    unfolding owners_within_def by auto
next
  case (Release a)
  then have l': "l' = release a l" using st by simp
  from tps release_effect [of a l] show ?thesis
    unfolding owners_within_def l' by auto
qed

lemma owners_within_run:
  "owners_within P l \<Longrightarrow> \<forall>e \<in> set es. event_by P e \<Longrightarrow> lease_run es l = Some l'
   \<Longrightarrow> owners_within P l'"
proof (induction es arbitrary: l)
  case Nil
  then show ?case by simp
next
  case (Cons e es)
  from Cons.prems(3) obtain l1 where st: "lease_step e l = Some l1"
    and run: "lease_run es l1 = Some l'"
    by (auto split: option.splits)
  from Cons.prems(2) have tp: "event_by P e" and rest: "\<forall>e \<in> set es. event_by P e"
    by simp_all
  show ?case
    using Cons.IH [OF owners_within_step [OF st tp Cons.prems(1)] rest run] .
qed

lemma owners_within_init: "owners_within P lease_init"
  by (simp add: owners_within_def lease_init_def pending_def)

lemma released_unheld:
  assumes po: "program_order es lease_init"
    and run: "lease_run es lease_init = Some l"
    and tp: "\<forall>e \<in> set es. event_by {a, b} e"
    and rc: "has_released a es" and rp: "has_released b es"
  shows "lease_owner l = None \<and> \<not> locked l \<and> waiters l = []"
proof -
  have nc: "\<not> engaged a l" and np: "\<not> engaged b l"
    using engaged_not_released [OF po run] rc rp by blast+
  have tps: "owners_within {a, b} l"
    using owners_within_run [OF owners_within_init tp run] .
  have inv: "lease_inv l"
    using lease_run_inv [OF lease_inv_init run] .
  from nc np tps have own: "lease_owner l = None"
    unfolding engaged_def owners_within_def by (cases "lease_owner l") auto
  from nc np tps have "pending l = {}"
    unfolding engaged_def owners_within_def by auto
  then have "waiters l = []"
    by (simp add: pending_def)
  with own inv show ?thesis by (simp add: lease_inv_def)
qed

lemma lease_run_keeps_holder:
  "lease_owner l = Some ow \<Longrightarrow> locked l \<Longrightarrow> lease_run es l = Some l'
   \<Longrightarrow> Release ow \<notin> set es \<Longrightarrow> lease_owner l' = Some ow \<and> locked l'"
proof (induction es arbitrary: l)
  case Nil
  then show ?case by simp
next
  case (Cons e es)
  from Cons.prems(3) obtain l1 where st: "lease_step e l = Some l1"
    and run: "lease_run es l1 = Some l'"
    by (auto split: option.splits)
  from Cons.prems(4) have ne: "e \<noteq> Release ow" and rest: "Release ow \<notin> set es"
    by auto
  from lease_step_keeps_holder [OF Cons.prems(1,2) st ne]
  have "lease_owner l1 = Some ow" and "locked l1" by simp_all
  from Cons.IH [OF this run rest] show ?case .
qed

lemma lease_step_keeps_interrupt:
  "lease_owner l = Some ow \<Longrightarrow> locked l \<Longrightarrow> interrupt_event l
   \<Longrightarrow> lease_step e l = Some l' \<Longrightarrow> e \<noteq> Release ow \<Longrightarrow> \<not> is_WaitFailed e
   \<Longrightarrow> interrupt_event l'"
  by (cases e)
     (auto simp: acquire_call_def acquire_granted_def acquire_wakeup_def
        acquire_cancelled_def drop_waiter_def release_def Let_def
        split: if_splits list.splits)

lemma lease_run_keeps_interrupt:
  "lease_owner l = Some ow \<Longrightarrow> locked l \<Longrightarrow> interrupt_event l
   \<Longrightarrow> lease_run es l = Some l' \<Longrightarrow> Release ow \<notin> set es
   \<Longrightarrow> \<forall>e \<in> set es. \<not> is_WaitFailed e
   \<Longrightarrow> interrupt_requested ow l'"
proof (induction es arbitrary: l)
  case Nil
  then show ?case by (simp add: interrupt_requested_def)
next
  case (Cons e es)
  from Cons.prems(4) obtain l1 where st: "lease_step e l = Some l1"
    and run: "lease_run es l1 = Some l'"
    by (auto split: option.splits)
  from Cons.prems(5) have ne: "e \<noteq> Release ow" and rest: "Release ow \<notin> set es"
    by auto
  from Cons.prems(6) have nf: "\<not> is_WaitFailed e" and restf: "\<forall>e \<in> set es. \<not> is_WaitFailed e"
    by simp_all
  from lease_step_keeps_holder [OF Cons.prems(1,2) st ne]
  have own: "lease_owner l1 = Some ow" and lk: "locked l1" by simp_all
  have ie: "interrupt_event l1"
    using lease_step_keeps_interrupt [OF Cons.prems(1,2,3) st ne nf] .
  from Cons.IH [OF own lk ie run rest restf] show ?case .
qed

lemma interrupt_event_origin_step:
  "lease_step e l = Some l' \<Longrightarrow> interrupt_event l'
   \<Longrightarrow> interrupt_event l \<or> (\<exists>a. e = Acquire a True)"
  by (cases e)
     (auto simp: acquire_call_def acquire_granted_def acquire_wakeup_def
        acquire_cancelled_def acquire_failed_def drop_waiter_def release_def Let_def truthy_def
        split: if_splits list.splits)

lemma interrupt_event_origin:
  "lease_run es l = Some l' \<Longrightarrow> interrupt_event l'
   \<Longrightarrow> interrupt_event l \<or> (\<exists>a. Acquire a True \<in> set es)"
proof (induction es arbitrary: l' rule: rev_induct)
  case Nil
  then show ?case by simp
next
  case (snoc e es)
  from snoc.prems(1) obtain l1 where run: "lease_run es l = Some l1"
    and st: "lease_step e l1 = Some l'"
    by (auto simp: lease_run_snoc split: option.splits)
  from interrupt_event_origin_step [OF st snoc.prems(2)]
  show ?case
  proof
    assume "interrupt_event l1"
    from snoc.IH [OF run this] show ?thesis by auto
  next
    assume "\<exists>a. e = Acquire a True"
    then show ?thesis by auto
  qed
qed

lemma preempt_sets_interrupt:
  "lease_owner l = Some ow \<Longrightarrow> locked l \<Longrightarrow> a \<noteq> ow \<Longrightarrow> a \<noteq> []
   \<Longrightarrow> interrupt_event (acquire_call a True l) \<and> lease_owner (acquire_call a True l) = Some ow
       \<and> locked (acquire_call a True l)"
  by (simp add: acquire_call_def truthy_def Let_def)

text \<open>
  C2. For every run of acquire and release steps by the owners \<^verbatim>\<open>continuous\<close> and
  \<^verbatim>\<open>playing\<close> from a fresh lease: the owner field is set exactly while the lock is held,
  and it names one of the two owners or nobody; an owner that holds the lease keeps it
  (owner field and lock) through every step but its own release, so nobody else holds it
  meanwhile; and when the run respects program order and the last call of each side is a
  release, the lease is unheld: no owner, lock unlocked, nobody waiting.
\<close>

theorem lease_mutual_exclusion:
  assumes run: "lease_run es lease_init = Some l"
    and parties: "\<forall>e \<in> set es. event_by {owner_continuous, owner_playing} e"
  shows "(lease_owner l \<noteq> None \<longleftrightarrow> locked l)
    \<and> (lease_owner l = None \<or> lease_owner l = Some owner_continuous \<or> lease_owner l = Some owner_playing)
    \<and> (\<forall>ow e l'. lease_owner l = Some ow \<and> lease_step e l = Some l' \<and> e \<noteq> Release ow
          \<longrightarrow> lease_owner l' = Some ow \<and> locked l')
    \<and> (program_order es lease_init \<and> has_released owner_continuous es \<and> has_released owner_playing es
          \<longrightarrow> lease_owner l = None \<and> \<not> locked l \<and> waiters l = [])"
proof -
  have inv: "lease_inv l"
    using lease_run_inv [OF lease_inv_init run] .
  have within: "owners_within {owner_continuous, owner_playing} l"
    using owners_within_run [OF owners_within_init parties run] .
  have c1: "lease_owner l \<noteq> None \<longleftrightarrow> locked l"
    using inv by (auto simp: lease_inv_def)
  have c2: "lease_owner l = None \<or> lease_owner l = Some owner_continuous \<or> lease_owner l = Some owner_playing"
    using within unfolding owners_within_def by (cases "lease_owner l") auto
  have c3: "\<forall>ow e l'. lease_owner l = Some ow \<and> lease_step e l = Some l' \<and> e \<noteq> Release ow
          \<longrightarrow> lease_owner l' = Some ow \<and> locked l'"
    using lease_step_keeps_holder c1 by blast
  have c4: "program_order es lease_init \<and> has_released owner_continuous es \<and> has_released owner_playing es
          \<longrightarrow> lease_owner l = None \<and> \<not> locked l \<and> waiters l = []"
    using released_unheld [OF _ run parties] by blast
  from c1 c2 c3 c4 show ?thesis by blast
qed

lemmas lease_defs =
  lease_init_def acquire_call_def acquire_granted_def acquire_wakeup_def acquire_cancelled_def
  acquire_failed_def drop_waiter_def release_def truthy_def Let_def

theorem lease_mutual_exclusion_witness:
  "lease_run [Acquire owner_continuous False, Acquire owner_playing True] lease_init
     = Some \<lparr>locked = True, waiters = [(owner_playing, Some owner_playing)], lease_owner = Some owner_continuous,
             interrupt_event = True, requester = Some owner_playing\<rparr>
   \<and> lease_step (Acquire owner_playing True)
        \<lparr>locked = True, waiters = [(owner_playing, Some owner_playing)], lease_owner = Some owner_continuous,
         interrupt_event = True, requester = Some owner_playing\<rparr> \<noteq> None
   \<and> lease_run [Acquire owner_continuous False, Acquire owner_playing True, Release owner_continuous, Wakeup,
                 Release owner_playing] lease_init = Some lease_init
   \<and> program_order [Acquire owner_continuous False, Acquire owner_playing True, Release owner_continuous, Wakeup,
                 Release owner_playing] lease_init
   \<and> has_released owner_continuous [Acquire owner_continuous False, Acquire owner_playing True,
         Release owner_continuous, Wakeup, Release owner_playing]
   \<and> has_released owner_playing [Acquire owner_continuous False, Acquire owner_playing True,
         Release owner_continuous, Wakeup, Release owner_playing]
   \<and> lease_owner lease_init = None \<and> \<not> locked lease_init"
proof -
  let ?es = "[Acquire owner_continuous False, Acquire owner_playing True, Release owner_continuous, Wakeup,
              Release owner_playing]"
  have run: "lease_run ?es lease_init = Some lease_init"
    by (simp add: lease_defs)
  have parties: "\<forall>e \<in> set ?es. event_by {owner_continuous, owner_playing} e"
    by simp
  have po: "program_order ?es lease_init"
    by (simp add: lease_defs pending_def)
  have rel: "has_released owner_continuous ?es" "has_released owner_playing ?es"
    by (simp_all add: has_released_def)
  have mid: "lease_run [Acquire owner_continuous False, Acquire owner_playing True] lease_init
     = Some \<lparr>locked = True, waiters = [(owner_playing, Some owner_playing)], lease_owner = Some owner_continuous,
             interrupt_event = True, requester = Some owner_playing\<rparr>"
    by (simp add: lease_defs)
  have st: "lease_step (Acquire owner_playing True)
        \<lparr>locked = True, waiters = [(owner_playing, Some owner_playing)], lease_owner = Some owner_continuous,
         interrupt_event = True, requester = Some owner_playing\<rparr> \<noteq> None"
    by simp
  from lease_mutual_exclusion [OF run parties] po rel
  have "lease_owner lease_init = None \<and> \<not> locked lease_init" by blast
  with run po rel mid st show ?thesis by blast
qed

text \<open>
  C3. In every state that a run reaches, \<^verbatim>\<open>interrupt_requested(owner)\<close> is true only
  if the owner holds the lease and some call of \<^verbatim>\<open>acquire\<close> with \<^verbatim>\<open>preempt=True\<close> was
  made. If \<^verbatim>\<open>continuous\<close> holds the lease and \<^verbatim>\<open>playing\<close> calls \<^verbatim>\<open>acquire\<close> with
  \<^verbatim>\<open>preempt=True\<close>, then \<^verbatim>\<open>interrupt_requested("continuous")\<close> is true at once and
  stays true, with \<^verbatim>\<open>playing\<close> not the owner, through every run in which
  \<^verbatim>\<open>continuous\<close> does not release and the lock raises no exception in a waiter;
  and \<^verbatim>\<open>playing\<close> becomes the owner only in a run that contains the release of
  \<^verbatim>\<open>continuous\<close>.
\<close>

theorem preemption_observed:
  assumes run: "lease_run es0 lease_init = Some l"
  shows "(\<forall>ow. interrupt_requested ow l
            \<longrightarrow> lease_owner l = Some ow \<and> (\<exists>a. Acquire a True \<in> set es0))
    \<and> (lease_owner l = Some owner_continuous \<longrightarrow>
          interrupt_requested owner_continuous (acquire_call owner_playing True l)
          \<and> (\<forall>es l'. lease_run es (acquire_call owner_playing True l) = Some l'
                \<and> Release owner_continuous \<notin> set es \<and> (\<forall>e \<in> set es. \<not> is_WaitFailed e)
                \<longrightarrow> interrupt_requested owner_continuous l' \<and> lease_owner l' \<noteq> Some owner_playing)
          \<and> (\<forall>es l'. lease_run es (acquire_call owner_playing True l) = Some l'
                \<and> lease_owner l' = Some owner_playing
                \<longrightarrow> Release owner_continuous \<in> set es))"
proof -
  have inv: "lease_inv l"
    using lease_run_inv [OF lease_inv_init run] .
  have first: "\<forall>ow. interrupt_requested ow l
            \<longrightarrow> lease_owner l = Some ow \<and> (\<exists>a. Acquire a True \<in> set es0)"
  proof (intro allI impI)
    fix ow assume ir: "interrupt_requested ow l"
    then have "interrupt_event l" by (simp add: interrupt_requested_def)
    from interrupt_event_origin [OF run this]
    have "\<exists>a. Acquire a True \<in> set es0" by (simp add: lease_init_def)
    with ir show "lease_owner l = Some ow \<and> (\<exists>a. Acquire a True \<in> set es0)"
      by (simp add: interrupt_requested_def)
  qed
  have second: "interrupt_requested owner_continuous (acquire_call owner_playing True l)
          \<and> (\<forall>es l'. lease_run es (acquire_call owner_playing True l) = Some l'
                \<and> Release owner_continuous \<notin> set es \<and> (\<forall>e \<in> set es. \<not> is_WaitFailed e)
                \<longrightarrow> interrupt_requested owner_continuous l' \<and> lease_owner l' \<noteq> Some owner_playing)
          \<and> (\<forall>es l'. lease_run es (acquire_call owner_playing True l) = Some l'
                \<and> lease_owner l' = Some owner_playing
                \<longrightarrow> Release owner_continuous \<in> set es)"
    if held: "lease_owner l = Some owner_continuous"
  proof -
    from held inv have lk: "locked l" by (simp add: lease_inv_def)
    let ?l1 = "acquire_call owner_playing True l"
    have pre: "interrupt_event ?l1 \<and> lease_owner ?l1 = Some owner_continuous \<and> locked ?l1"
      using preempt_sets_interrupt [OF held lk, of owner_playing] by simp
    then have a: "interrupt_requested owner_continuous ?l1"
      by (simp add: interrupt_requested_def)
    have b: "interrupt_requested owner_continuous l' \<and> lease_owner l' \<noteq> Some owner_playing"
      if "lease_run es ?l1 = Some l'" and "Release owner_continuous \<notin> set es"
        and "\<forall>e \<in> set es. \<not> is_WaitFailed e" for es l'
    proof -
      have "interrupt_requested owner_continuous l'"
        using lease_run_keeps_interrupt [of ?l1 owner_continuous es l'] pre that by blast
      then show ?thesis by (simp add: interrupt_requested_def)
    qed
    have c: "Release owner_continuous \<in> set es"
      if "lease_run es ?l1 = Some l'" and "lease_owner l' = Some owner_playing" for es l'
    proof (rule ccontr)
      assume "Release owner_continuous \<notin> set es"
      from lease_run_keeps_holder [of ?l1 owner_continuous es l'] pre that(1) this
      have "lease_owner l' = Some owner_continuous" by blast
      with that(2) show False by simp
    qed
    from a b c show ?thesis by blast
  qed
  from first second show ?thesis by blast
qed

theorem preemption_observed_witness:
  "lease_run [Acquire owner_continuous False] lease_init
     = Some \<lparr>locked = True, waiters = [], lease_owner = Some owner_continuous,
             interrupt_event = False, requester = None\<rparr>
   \<and> interrupt_requested owner_continuous
       (acquire_call owner_playing True
          \<lparr>locked = True, waiters = [], lease_owner = Some owner_continuous,
           interrupt_event = False, requester = None\<rparr>)
   \<and> lease_run [WaitCancelled 0, Acquire owner_playing True]
       (acquire_call owner_playing True
          \<lparr>locked = True, waiters = [], lease_owner = Some owner_continuous,
           interrupt_event = False, requester = None\<rparr>)
     = Some \<lparr>locked = True, waiters = [(owner_playing, Some owner_playing)], lease_owner = Some owner_continuous,
             interrupt_event = True, requester = Some owner_playing\<rparr>
   \<and> interrupt_requested owner_continuous
        \<lparr>locked = True, waiters = [(owner_playing, Some owner_playing)], lease_owner = Some owner_continuous,
         interrupt_event = True, requester = Some owner_playing\<rparr>"
proof -
  let ?l = "\<lparr>locked = True, waiters = [], lease_owner = Some owner_continuous,
             interrupt_event = False, requester = None\<rparr>"
  let ?l2 = "\<lparr>locked = True, waiters = [(owner_playing, Some owner_playing)],
              lease_owner = Some owner_continuous, interrupt_event = True,
              requester = Some owner_playing\<rparr>"
  have run: "lease_run [Acquire owner_continuous False] lease_init = Some ?l"
    by (simp add: lease_defs)
  have held: "lease_owner ?l = Some owner_continuous" by simp
  have run2: "lease_run [WaitCancelled 0, Acquire owner_playing True] (acquire_call owner_playing True ?l)
                = Some ?l2"
    by (simp add: lease_defs)
  have ok: "Release owner_continuous \<notin> set [WaitCancelled 0, Acquire owner_playing True]
            \<and> (\<forall>e \<in> set [WaitCancelled 0, Acquire owner_playing True]. \<not> is_WaitFailed e)"
    by simp
  from preemption_observed [OF run] held run2 ok
  have "interrupt_requested owner_continuous (acquire_call owner_playing True ?l)
        \<and> interrupt_requested owner_continuous ?l2"
    by blast
  with run run2 show ?thesis by blast
qed

subsection \<open>The analyser's depth limit\<close>

lemma apply_call_at_limit: "\<not> is_update_game c \<Longrightarrow> at_limit s \<Longrightarrow> at_limit (apply_call c s)"
  by (cases c)
     (auto simp: at_limit_def set_game_id_def update_limit_def stop_def cancel_def get_fen_def
        split: option.splits)

lemma apply_calls_at_limit:
  "\<forall>c \<in> set cs. \<not> is_update_game c \<Longrightarrow> at_limit s \<Longrightarrow> at_limit (apply_calls cs s)"
  by (induction cs arbitrary: s) (simp_all add: apply_call_at_limit)

lemma watching_body_at_limit:
  "at_limit s \<Longrightarrow> watching_body env s = (sleep_raises env, [Sleep_no_game], s)
                 \<or> watching_body env s = (sleep_raises env, [Sleep_limited], s)"
  by (auto simp: watching_body_def at_limit_def split: option.splits)

lemma watching_loop_at_limit:
  "at_limit s \<Longrightarrow> \<forall>env \<in> set envs. \<forall>c \<in> set (before env). \<not> is_update_game c
   \<Longrightarrow> watching_loop envs s = (x, tr, s')
   \<Longrightarrow> (\<forall>a \<in> set tr. is_sleep a) \<and> at_limit s'"
proof (induction envs arbitrary: s x tr s')
  case Nil
  then show ?case by simp
next
  case (Cons env envs)
  let ?s = "apply_calls (before env) s"
  from Cons.prems(2) have k: "\<forall>c \<in> set (before env). \<not> is_update_game c"
    and rest: "\<forall>env \<in> set envs. \<forall>c \<in> set (before env). \<not> is_update_game c"
    by simp_all
  have al: "at_limit ?s"
    using apply_calls_at_limit [OF k Cons.prems(1)] .
  show ?case
  proof (cases "running ?s")
    case False
    with Cons.prems(3) al show ?thesis by (simp add: Let_def)
  next
    case True
    from watching_body_at_limit [OF al, of env]
    obtain a where body: "watching_body env ?s = (sleep_raises env, [a], ?s)" and sl: "is_sleep a"
      by auto
    have al2: "at_limit (?s\<lparr>ca_task := False, running := False\<rparr>)"
      using al by (auto simp: at_limit_def get_fen_def split: option.splits)
    show ?thesis
    proof (cases "sleep_raises env = Some CancelledError
                  \<or> sleep_raises env = Some EngineTerminatedError")
      case c1: True
      obtain y tr2 s2 where
        rec: "watching_loop envs (?s\<lparr>ca_task := False, running := False\<rparr>) = (y, tr2, s2)"
        by (metis prod_cases3)
      from Cons.prems(3) True body c1 rec have "tr = [a] @ tr2" and "s' = s2"
        by (auto simp: Let_def)
      with Cons.IH [OF al2 rest rec] sl show ?thesis by simp
    next
      case c1: False
      show ?thesis
      proof (cases "sleep_raises env = None \<or> sleep_raises env = Some AnalysisComplete")
        case c2: True
        obtain y tr2 s2 where rec: "watching_loop envs ?s = (y, tr2, s2)"
          by (metis prod_cases3)
        from Cons.prems(3) True body c1 c2 rec have "tr = [a] @ tr2" and "s' = s2"
          by (auto simp: Let_def)
        with Cons.IH [OF al rest rec] sl show ?thesis by simp
      next
        case c2: False
        from Cons.prems(3) True body c1 c2 have "tr = [a]" and "s' = ?s"
          by (auto simp: Let_def)
        with al sl show ?thesis by simp
      qed
    qed
  qed
qed

lemma apply_call_limit_reached:
  "\<not> limit_reached s \<Longrightarrow> \<not> limit_reached (apply_call c s)"
  by (cases c) (auto simp: update_game_def set_game_id_def update_limit_def stop_def cancel_def)

lemma apply_calls_limit_reached:
  "\<not> limit_reached s \<Longrightarrow> \<not> limit_reached (apply_calls cs s)"
  by (induction cs arbitrary: s) (simp_all add: apply_call_limit_reached)

lemma apply_call_current_game: "current_game (apply_call c s) = current_game s"
  by (cases c) (auto simp: update_game_def set_game_id_def update_limit_def stop_def cancel_def)

lemma apply_calls_current_game: "current_game (apply_calls cs s) = current_game s"
  by (induction cs arbitrary: s) (simp_all add: apply_call_current_game)

lemma apply_call_game_id:
  "game_id s = game_id t \<Longrightarrow> game_id (apply_call c s) = game_id (apply_call c t)"
  by (cases c) (auto simp: update_game_def set_game_id_def update_limit_def stop_def cancel_def)

lemma apply_calls_game_id:
  "game_id s = game_id t \<Longrightarrow> game_id (apply_calls cs s) = game_id (apply_calls cs t)"
proof (induction cs arbitrary: s t)
  case Nil
  then show ?case by simp
next
  case (Cons c cs)
  have "game_id (apply_calls cs (apply_call c s)) = game_id (apply_calls cs (apply_call c t))"
    by (rule Cons.IH [OF apply_call_game_id [OF Cons.prems]])
  then show ?case by simp
qed

lemma limit_hit_limit_reached [simp]:
  "limit_hit lim (s\<lparr>limit_reached := b\<rparr>) = limit_hit lim s"
  by (simp add: limit_hit_def)

lemma depth_reached_nonempty: "depth_reached lim ls \<Longrightarrow> ls \<noteq> []"
  by (auto simp: depth_reached_def split: option.splits)

lemma analyse_update_limit:
  assumes "\<not> limit_reached s0" and "analyse_update lim afen agid u s0 = (r, tr, s')"
  shows "(limit_reached s' \<longrightarrow> at_limit s' \<and> limit_hit lim s' \<and> r = Return)
         \<and> (\<forall>a \<in> set tr. \<not> is_sleep a \<and> \<not> is_engine_call a)"
proof -
  let ?s = "apply_calls (outside u) s0"
  let ?an = "\<lparr>stored = lines u, computed_for = afen, computed_under = agid\<rparr>"
  have nl: "\<not> limit_reached ?s"
    using assms(1) by (rule apply_calls_limit_reached)
  show ?thesis
  proof (cases "interrupted u")
    case True
    with assms(2) nl show ?thesis by (auto simp: analyse_update_def Let_def)
  next
    case ni: False
    show ?thesis
    proof (cases "target_superseded ?s")
      case (Inl e)
      with assms(2) ni nl show ?thesis by (auto simp: analyse_update_def Let_def)
    next
      case (Inr sup)
      show ?thesis
      proof (cases sup)
        case True
        with assms(2) ni nl Inr show ?thesis by (auto simp: analyse_update_def Let_def)
      next
        case ns: False
        from Inr ns have tgt: "current_game_id ?s = game_id ?s
            \<and> (case game ?s of None \<Rightarrow> False | Some g \<Rightarrow> get_fen ?s = fen g)"
          by (auto simp: target_superseded_def get_fen_def split: if_splits option.splits)
        show ?thesis
        proof (cases "lines u \<noteq> [] \<and> limit_hit lim (?s\<lparr>analysis_data := Some ?an\<rparr>)")
          case True
          with assms(2) ni Inr ns
          have "r = Return" and "tr = []"
            and "s' = ?s\<lparr>analysis_data := Some ?an, limit_reached := True\<rparr>"
            by (simp_all add: analyse_update_def Let_def update_analysis_data_def)
          with True tgt show ?thesis
            by (auto simp: at_limit_def get_fen_def split: option.splits)
        next
          case False
          with assms(2) ni Inr ns
          have "tr = [Sleep_delay]"
            and "s' = ?s\<lparr>analysis_data := Some ?an\<rparr> \<or> s' = ?s"
            by (auto simp: analyse_update_def Let_def update_analysis_data_def
                split: if_splits)
          with nl show ?thesis by auto
        qed
      qed
    qed
  qed
qed

lemma analyse_update_reaches:
  assumes "\<not> interrupted u" and "target_superseded (apply_calls (outside u) s0) = Inr False"
    and "depth_reached lim (lines u)"
  shows "analyse_update lim afen agid u s0 =
     (Return, [],
      (apply_calls (outside u) s0)
        \<lparr>analysis_data := Some \<lparr>stored = lines u, computed_for = afen, computed_under = agid\<rparr>,
         limit_reached := True\<rparr>)"
  using assms depth_reached_nonempty [OF assms(3)]
  by (simp add: analyse_update_def Let_def update_analysis_data_def limit_hit_def)

lemma analyse_updates_limit:
  "\<not> limit_reached s \<Longrightarrow> analyse_updates lim afen agid us fin s = (x, tr, s')
   \<Longrightarrow> (limit_reached s' \<longrightarrow> at_limit s' \<and> limit_hit lim s')
       \<and> (\<forall>a \<in> set tr. \<not> is_sleep a \<and> \<not> is_engine_call a)"
proof (induction us arbitrary: s x tr s')
  case Nil
  then show ?case by simp
next
  case (Cons u us)
  obtain r tr1 s1 where upd: "analyse_update lim afen agid u s = (r, tr1, s1)"
    by (metis prod_cases3)
  note one = analyse_update_limit [OF Cons.prems(1) upd]
  show ?case
  proof (cases r)
    case Next
    obtain y tr2 s2 where rec: "analyse_updates lim afen agid us fin s1 = (y, tr2, s2)"
      by (metis prod_cases3)
    from one Next have nl: "\<not> limit_reached s1" by auto
    from Cons.prems(2) upd Next rec have "tr = tr1 @ tr2" and "s' = s2"
      by simp_all
    with Cons.IH [OF nl rec] one show ?thesis by auto
  next
    case Return
    with Cons.prems(2) upd have "tr = tr1" and "s' = s1" by simp_all
    with one show ?thesis by simp
  next
    case (Raised e)
    with Cons.prems(2) upd have "tr = tr1" and "s' = s1" by simp_all
    with one Raised show ?thesis by simp
  qed
qed

lemma analyse_forever_limit:
  assumes "\<not> limit_reached s" and "analyse_forever lim mpv env s = (x, tr, s')"
  shows "(limit_reached s' \<longrightarrow> at_limit s' \<and> limit_hit lim s')
         \<and> (\<forall>a \<in> set tr. \<not> is_sleep a)"
proof (cases "acquire_raises env")
  case (Some e)
  with assms show ?thesis by (simp add: analyse_forever_def)
next
  case None
  let ?s = "apply_calls (during_acquire env) s"
  have nl: "\<not> limit_reached ?s"
    using assms(1) by (rule apply_calls_limit_reached)
  show ?thesis
  proof (cases "current_game ?s")
    case cn: None
    with assms(2) None nl show ?thesis by (auto simp: analyse_forever_def Let_def)
  next
    case (Some b)
    show ?thesis
    proof (cases "analysis_raises env")
      case ar: (Some e)
      with assms(2) None Some nl show ?thesis by (auto simp: analyse_forever_def Let_def)
    next
      case an: None
      obtain y tr1 s1 where
        upd: "analyse_updates lim (fen b) (game_id ?s) (updates env) (stream_raises env) ?s
                = (y, tr1, s1)"
        by (metis prod_cases3)
      from assms(2) None Some an upd have
        "tr = [Lease_acquire, Engine_analysis b lim mpv (game_id ?s)] @ tr1
                @ [Analysis_stop, Lease_release]"
        and "s' = s1"
        by (simp_all add: analyse_forever_def Let_def)
      with analyse_updates_limit [OF nl upd] show ?thesis by auto
    qed
  qed
qed

lemma analyse_forever_calls_engine:
  assumes "acquire_raises env = None" and "current_game s = Some b"
    and "analyse_forever lim mpv env s = (x, tr, s')"
  shows "Engine_analysis b lim mpv (game_id (apply_calls (during_acquire env) s)) \<in> set tr"
proof -
  let ?s = "apply_calls (during_acquire env) s"
  have cg: "current_game ?s = Some b"
    using assms(2) by (simp add: apply_calls_current_game)
  show ?thesis
  proof (cases "analysis_raises env")
    case None
    obtain y tr1 s1 where
      upd: "analyse_updates lim (fen b) (game_id ?s) (updates env) (stream_raises env) ?s
              = (y, tr1, s1)"
      by (metis prod_cases3)
    with assms(1,3) cg None show ?thesis by (auto simp: analyse_forever_def Let_def)
  next
    case (Some e)
    with assms(1,3) cg show ?thesis by (auto simp: analyse_forever_def Let_def)
  qed
qed

lemma watching_body_short_circuit:
  assumes "watching_body env s = (x, tr, s')" and "Sleep_limited \<in> set tr"
  shows "at_limit s"
proof (rule ccontr)
  assume na: "\<not> at_limit s"
  show False
  proof (cases "game_analysable (game s)")
    case False
    with assms show ?thesis by (auto simp: watching_body_def)
  next
    case True
    then obtain g where g: "game s = Some g"
      by (auto simp: game_analysable_def split: option.splits)
    let ?s1 = "s\<lparr>current_game := Some g, limit_reached := False,
                 current_game_id := game_id s, analysis_data := None\<rparr>"
    from na g have "\<not> (limit_reached s \<and> current_game_id s = game_id s \<and> get_fen s = fen g)"
      by (simp add: at_limit_def)
    with assms(1) True g have "analyse_forever (limit s) (multipv s) (analysis env) ?s1 = (x, tr, s')"
      by (auto simp: watching_body_def split: if_splits)
    from analyse_forever_limit [OF _ this] assms(2) show False by auto
  qed
qed

lemma watching_body_analyses:
  assumes "watching_body env s = (x, tr, s')" and "game s = Some g" and "\<not> is_game_over g"
    and "\<not> at_limit s" and "acquire_raises (analysis env) = None"
  shows "Engine_analysis g (limit s) (multipv s)
           (game_id (apply_calls (during_acquire (analysis env)) s)) \<in> set tr"
proof -
  let ?s1 = "s\<lparr>current_game := Some g, limit_reached := False,
               current_game_id := game_id s, analysis_data := None\<rparr>"
  from assms(2,4) have "\<not> (limit_reached s \<and> current_game_id s = game_id s \<and> get_fen s = fen g)"
    by (simp add: at_limit_def)
  with assms(1,2,3) have "analyse_forever (limit s) (multipv s) (analysis env) ?s1 = (x, tr, s')"
    by (auto simp: watching_body_def game_analysable_def split: if_splits)
  from analyse_forever_calls_engine [OF assms(5) _ this, of g]
  have "Engine_analysis g (limit s) (multipv s)
          (game_id (apply_calls (during_acquire (analysis env)) ?s1)) \<in> set tr"
    by simp
  moreover have "game_id (apply_calls (during_acquire (analysis env)) ?s1)
                   = game_id (apply_calls (during_acquire (analysis env)) s)"
    by (rule apply_calls_game_id) simp
  ultimately show ?thesis by simp
qed

lemma watching_body_sets_limit:
  assumes "watching_body env s = (x, tr, s')" and "\<exists>a \<in> set tr. is_engine_call a"
    and "limit_reached s'"
  shows "at_limit s' \<and> limit_hit (limit s) s'"
proof (cases "game_analysable (game s)")
  case False
  with assms show ?thesis by (auto simp: watching_body_def)
next
  case True
  then obtain g where g: "game s = Some g"
    by (auto simp: game_analysable_def split: option.splits)
  let ?s1 = "s\<lparr>current_game := Some g, limit_reached := False,
               current_game_id := game_id s, analysis_data := None\<rparr>"
  show ?thesis
  proof (cases "limit_reached s \<and> current_game_id s = game_id s \<and> get_fen s = fen g")
    case True
    with assms \<open>game_analysable (game s)\<close> g show ?thesis
      by (auto simp: watching_body_def)
  next
    case False
    with assms(1) \<open>game_analysable (game s)\<close> g
    have "analyse_forever (limit s) (multipv s) (analysis env) ?s1 = (x, tr, s')"
      by (auto simp: watching_body_def split: if_splits)
    from analyse_forever_limit [OF _ this] assms(3) show ?thesis by simp
  qed
qed

lemma start_analysis_keeps_limit:
  assumes "analyser s = Some a" and "is_running a" and "at_limit a" and "get_fen a = fen g"
    and "start_analysis g lim mpv s = Inr (r, s', created)"
  shows "r \<and> \<not> created \<and> (\<exists>a'. analyser s' = Some a' \<and> at_limit a')"
proof -
  from assms(1,2) have ar: "analyser_running s = Some a"
    by (simp add: analyser_running_def)
  let ?a1 = "if limit_changed lim a then update_limit lim a else a"
  have fen1: "get_fen ?a1 = fen g"
    using assms(4) by (simp add: update_limit_def get_fen_def)
  have al1: "at_limit ?a1"
    using assms(3) by (auto simp: update_limit_def at_limit_def get_fen_def split: option.splits)
  from assms(5) ar fen1 have "r" and "\<not> created" and "analyser s' = Some ?a1"
    by (auto simp: start_analysis_def Let_def)
  with al1 show ?thesis by blast
qed

subsection \<open>What the stored lines were computed for\<close>

lemma apply_call_data_for_current:
  "data_for_current s \<Longrightarrow> data_for_current (apply_call c s)"
  by (cases c)
     (auto simp: data_for_current_def update_game_def set_game_id_def update_limit_def
        stop_def cancel_def split: option.splits)

lemma apply_calls_data_for_current:
  "data_for_current s \<Longrightarrow> data_for_current (apply_calls cs s)"
  by (induction cs arbitrary: s) (simp_all add: apply_call_data_for_current)

lemma analyse_update_data_for_current:
  assumes "data_for_current s0" and "current_game s0 = Some b"
    and "analyse_update lim (fen b) agid u s0 = (r, tr, s')"
  shows "data_for_current s' \<and> current_game s' = Some b"
proof -
  let ?s = "apply_calls (outside u) s0"
  have d: "data_for_current ?s"
    using assms(1) by (rule apply_calls_data_for_current)
  have c: "current_game ?s = Some b"
    using assms(2) by (simp add: apply_calls_current_game)
  show ?thesis
    using assms(3) d c
    by (auto simp: analyse_update_def Let_def update_analysis_data_def data_for_current_def
        split: if_splits sum.splits prod.splits)
qed

lemma analyse_updates_data_for_current:
  "data_for_current s \<Longrightarrow> current_game s = Some b
   \<Longrightarrow> analyse_updates lim (fen b) agid us fin s = (x, tr, s')
   \<Longrightarrow> data_for_current s' \<and> current_game s' = Some b"
proof (induction us arbitrary: s x tr s')
  case Nil
  then show ?case by simp
next
  case (Cons u us)
  obtain r tr1 s1 where upd: "analyse_update lim (fen b) agid u s = (r, tr1, s1)"
    by (metis prod_cases3)
  note one = analyse_update_data_for_current [OF Cons.prems(1,2) upd]
  show ?case
  proof (cases r)
    case Next
    obtain y tr2 s2 where rec: "analyse_updates lim (fen b) agid us fin s1 = (y, tr2, s2)"
      by (metis prod_cases3)
    from Cons.prems(3) upd Next rec have "s' = s2" by simp
    with Cons.IH [OF _ _ rec] one show ?thesis by simp
  next
    case Return
    with Cons.prems(3) upd have "s' = s1" by simp
    with one show ?thesis by simp
  next
    case (Raised e)
    with Cons.prems(3) upd have "s' = s1" by simp
    with one show ?thesis by simp
  qed
qed

lemma analyse_forever_data_for_current:
  assumes "data_for_current s" and "analyse_forever lim mpv env s = (x, tr, s')"
  shows "data_for_current s'"
proof (cases "acquire_raises env")
  case (Some e)
  with assms show ?thesis by (simp add: analyse_forever_def)
next
  case None
  let ?s = "apply_calls (during_acquire env) s"
  have d: "data_for_current ?s"
    using assms(1) by (rule apply_calls_data_for_current)
  show ?thesis
  proof (cases "current_game ?s")
    case cn: None
    with assms(2) None d show ?thesis by (auto simp: analyse_forever_def Let_def)
  next
    case (Some b)
    show ?thesis
    proof (cases "analysis_raises env")
      case ar: (Some e)
      with assms(2) None Some d show ?thesis by (auto simp: analyse_forever_def Let_def)
    next
      case an: None
      obtain y tr1 s1 where
        upd: "analyse_updates lim (fen b) (game_id ?s) (updates env) (stream_raises env) ?s
                = (y, tr1, s1)"
        by (metis prod_cases3)
      from assms(2) None Some an upd have "s' = s1"
        by (simp add: analyse_forever_def Let_def)
      with analyse_updates_data_for_current [OF d Some upd] show ?thesis by simp
    qed
  qed
qed

lemma watching_body_data_for_current:
  assumes "data_for_current s" and "watching_body env s = (x, tr, s')"
  shows "data_for_current s'"
proof (cases "game_analysable (game s)")
  case False
  with assms show ?thesis by (auto simp: watching_body_def)
next
  case True
  then obtain g where g: "game s = Some g"
    by (auto simp: game_analysable_def split: option.splits)
  let ?s1 = "s\<lparr>current_game := Some g, limit_reached := False,
               current_game_id := game_id s, analysis_data := None\<rparr>"
  show ?thesis
  proof (cases "limit_reached s \<and> current_game_id s = game_id s \<and> get_fen s = fen g")
    case True
    with assms \<open>game_analysable (game s)\<close> g show ?thesis
      by (auto simp: watching_body_def)
  next
    case False
    with assms(2) \<open>game_analysable (game s)\<close> g
    have run: "analyse_forever (limit s) (multipv s) (analysis env) ?s1 = (x, tr, s')"
      by (auto simp: watching_body_def split: if_splits)
    have "data_for_current ?s1"
      by (simp add: data_for_current_def)
    from analyse_forever_data_for_current [OF this run] show ?thesis .
  qed
qed

lemma watching_loop_data_for_current:
  "data_for_current s \<Longrightarrow> watching_loop envs s = (x, tr, s') \<Longrightarrow> data_for_current s'"
proof (induction envs arbitrary: s x tr s')
  case Nil
  then show ?case by simp
next
  case (Cons env envs)
  let ?s = "apply_calls (before env) s"
  have d: "data_for_current ?s"
    using Cons.prems(1) by (rule apply_calls_data_for_current)
  show ?case
  proof (cases "running ?s")
    case False
    with Cons.prems(2) d show ?thesis by (simp add: Let_def)
  next
    case True
    obtain y tr1 s1 where body: "watching_body env ?s = (y, tr1, s1)"
      by (metis prod_cases3)
    have d1: "data_for_current s1"
      using watching_body_data_for_current [OF d body] .
    have d2: "data_for_current (s1\<lparr>ca_task := False, running := False\<rparr>)"
      using d1 by (auto simp: data_for_current_def split: option.splits)
    show ?thesis
    proof (cases "y = Some CancelledError \<or> y = Some EngineTerminatedError")
      case c1: True
      obtain z tr2 s2 where
        rec: "watching_loop envs (s1\<lparr>ca_task := False, running := False\<rparr>) = (z, tr2, s2)"
        by (metis prod_cases3)
      from Cons.prems(2) True body c1 rec have "s' = s2"
        by (auto simp: Let_def)
      with Cons.IH [OF d2 rec] show ?thesis by simp
    next
      case c1: False
      show ?thesis
      proof (cases "y = None \<or> y = Some AnalysisComplete")
        case c2: True
        obtain z tr2 s2 where rec: "watching_loop envs s1 = (z, tr2, s2)"
          by (metis prod_cases3)
        from Cons.prems(2) True body c1 c2 rec have "s' = s2"
          by (auto simp: Let_def)
        with Cons.IH [OF d1 rec] show ?thesis by simp
      next
        case c2: False
        from Cons.prems(2) True body c1 c2 have "s' = s1"
          by (auto simp: Let_def)
        with d1 show ?thesis by simp
      qed
    qed
  qed
qed

lemma watching_analyse_data_for_current:
  "data_for_current s \<Longrightarrow> watching_analyse envs s = (x, tr, s') \<Longrightarrow> data_for_current s'"
  using watching_loop_data_for_current [of "s\<lparr>limit_reached := False\<rparr>" envs x tr s']
  by (auto simp: watching_analyse_def data_for_current_def split: option.splits)

subsection \<open>Depth-limit idempotence\<close>

text \<open>
  C4, amended. When an iteration of the loop analyses and ends with \<^verbatim>\<open>limit_reached\<close>
  set, the top line's depth has reached \<^verbatim>\<open>limit.depth\<close> and the tracked position and
  game id are the target's; and an info update whose top line has reached
  \<^verbatim>\<open>limit.depth\<close>, arriving while the target is unchanged and no interrupt is
  requested, sets the flag and ends the analysis. From a state with the limit reached,
  as long as \<^verbatim>\<open>update_game\<close> is not called, every further iteration only sleeps: no
  call of the engine, no call on the lease. A call of \<^verbatim>\<open>update_game\<close> resets the flag
  whatever position it passes; \<^verbatim>\<open>UciEngine.start_analysis\<close> with the tracked position
  does not call it and leaves the limit reached. The short-circuit branch is taken only
  when the flag is set and game id and position string both match; otherwise, when there
  is a game to analyse and the lease is granted, the engine is called on the target
  position.
\<close>

theorem depth_limit_idempotence:
  "(watching_body env s = (x, tr, s') \<and> (\<exists>a \<in> set tr. is_engine_call a) \<and> limit_reached s'
      \<longrightarrow> at_limit s' \<and> limit_hit (limit s) s')
   \<and> (\<not> interrupted u \<and> target_superseded (apply_calls (outside u) s0) = Inr False
        \<and> depth_reached lim (lines u)
      \<longrightarrow> analyse_update lim afen agid u s0 =
            (Return, [],
             (apply_calls (outside u) s0)
               \<lparr>analysis_data :=
                  Some \<lparr>stored = lines u, computed_for = afen, computed_under = agid\<rparr>,
                limit_reached := True\<rparr>))
   \<and> (at_limit s \<and> (\<forall>env \<in> set envs. \<forall>c \<in> set (before env). \<not> is_update_game c)
        \<and> watching_loop envs s = (y, tr2, s2)
      \<longrightarrow> (\<forall>a \<in> set tr2. is_sleep a) \<and> at_limit s2)
   \<and> (analyser ue = Some a \<and> is_running a \<and> at_limit a \<and> get_fen a = fen g2
        \<and> start_analysis g2 lim2 mpv2 ue = Inr (r, ue', created)
      \<longrightarrow> r \<and> \<not> created \<and> (\<exists>a'. analyser ue' = Some a' \<and> at_limit a'))
   \<and> (watching_body env s = (x, tr, s') \<and> Sleep_limited \<in> set tr \<longrightarrow> at_limit s)
   \<and> (watching_body env s = (x, tr, s') \<and> game s = Some g \<and> \<not> is_game_over g
        \<and> \<not> at_limit s \<and> acquire_raises (analysis env) = None
      \<longrightarrow> Engine_analysis g (limit s) (multipv s)
            (game_id (apply_calls (during_acquire (analysis env)) s)) \<in> set tr)"
  using watching_body_sets_limit [of env s x tr s']
    analyse_update_reaches [of u s0 lim afen agid]
    watching_loop_at_limit [of s envs y tr2 s2]
    start_analysis_keeps_limit [of ue a g2 lim2 mpv2 r ue' created]
    watching_body_short_circuit [of env s x tr s']
    watching_body_analyses [of env s x tr s' g]
  by blast

text \<open>
  C4 as stated fails: with the limit reached for the starting position, a call of
  \<^verbatim>\<open>update_game\<close> with the same position, under the same game id, makes the next
  iteration call the engine again.
\<close>

theorem depth_limit_idempotence_counterexample:
  "at_limit limited_analyser
   \<and> map_option fen (game (apply_calls (before same_position_update) limited_analyser))
       = map_option fen (game limited_analyser)
   \<and> game_id (apply_calls (before same_position_update) limited_analyser)
       = game_id limited_analyser
   \<and> fst (snd (watching_loop [same_position_update] limited_analyser))
       = [Lease_acquire, Engine_analysis quiet_board (Some depth_ten) None 1, Analysis_stop,
          Lease_release]"
  by (simp add: at_limit_def limited_analyser_def started_analyser_def get_fen_def
      same_position_update_def update_game_def watching_body_def game_analysable_def
      analyse_forever_def)

lemma watching_body_example:
  "watching_body reaching_depth_ten started_analyser
     = (None,
        [Lease_acquire, Engine_analysis quiet_board (Some depth_ten) None 1, Sleep_delay,
         Analysis_stop, Lease_release],
        limited_analyser)"
  by (simp add: watching_body_def game_analysable_def get_fen_def started_analyser_def
      reaching_depth_ten_def analyse_forever_def analyse_update_def target_superseded_def
      update_analysis_data_def limit_hit_def depth_reached_def depth_ten_def
      limited_analyser_def)

lemma watching_loop_example:
  "watching_loop [quiet_poll, quiet_poll] limited_analyser
     = (None, [Sleep_limited, Sleep_limited], limited_analyser)"
  by (simp add: watching_body_def game_analysable_def get_fen_def started_analyser_def
      quiet_poll_def limited_analyser_def update_limit_def set_game_id_def depth_ten_def)

lemma watching_analyse_example:
  "watching_analyse [reaching_depth_ten, quiet_poll, quiet_poll] started_analyser
     = (None,
        [Lease_acquire, Engine_analysis quiet_board (Some depth_ten) None 1, Sleep_delay,
         Analysis_stop, Lease_release, Sleep_limited, Sleep_limited],
        limited_analyser)"
proof -
  have s0: "started_analyser\<lparr>limit_reached := False\<rparr> = started_analyser"
    by (simp add: started_analyser_def)
  have b: "before reaching_depth_ten = []" and r: "running started_analyser"
    by (simp_all add: reaching_depth_ten_def started_analyser_def)
  show ?thesis
    unfolding watching_analyse_def s0
    by (subst watching_loop.simps(2))
       (simp add: b r watching_body_example watching_loop_example del: watching_loop.simps)
qed

theorem depth_limit_idempotence_witness:
  "watching_analyse [reaching_depth_ten, quiet_poll, quiet_poll] started_analyser
     = (None,
        [Lease_acquire, Engine_analysis quiet_board (Some depth_ten) None 1, Sleep_delay,
         Analysis_stop, Lease_release, Sleep_limited, Sleep_limited],
        limited_analyser)
   \<and> depth_reached (Some depth_ten) [\<lparr>depth = Some 10, details = 1\<rparr>]
   \<and> \<not> depth_reached (Some depth_ten) [\<lparr>depth = Some 5, details = 0\<rparr>]
   \<and> at_limit limited_analyser
   \<and> limit_hit (limit started_analyser) limited_analyser
   \<and> watching_loop [quiet_poll, quiet_poll] limited_analyser
       = (None, [Sleep_limited, Sleep_limited], limited_analyser)
   \<and> is_sleep Sleep_limited"
proof -
  have lr: "limit_reached limited_analyser"
    by (simp add: limited_analyser_def)
  have k: "\<forall>env \<in> set [quiet_poll, quiet_poll]. \<forall>c \<in> set (before env). \<not> is_update_game c"
    by (simp add: quiet_poll_def)
  have dr: "depth_reached (Some depth_ten) [\<lparr>depth = Some 10, details = 1\<rparr>]"
    and ndr: "\<not> depth_reached (Some depth_ten) [\<lparr>depth = Some 5, details = 0\<rparr>]"
    by (simp_all add: depth_reached_def depth_ten_def)
  from depth_limit_idempotence
    [where env = reaching_depth_ten and s = started_analyser and x = None
       and tr = "[Lease_acquire, Engine_analysis quiet_board (Some depth_ten) None 1,
                  Sleep_delay, Analysis_stop, Lease_release]"
       and s' = limited_analyser]
    depth_limit_idempotence
    [where s = limited_analyser and envs = "[quiet_poll, quiet_poll]" and y = None
       and ?tr2.0 = "[Sleep_limited, Sleep_limited]" and ?s2.0 = limited_analyser]
    watching_body_example watching_loop_example lr k
  have "at_limit limited_analyser \<and> limit_hit (limit started_analyser) limited_analyser
        \<and> is_sleep Sleep_limited"
    by simp
  with watching_analyse_example watching_loop_example dr ndr show ?thesis by simp
qed

subsection \<open>Delivery of the search result\<close>

lemma on_exception_queues:
  "should_queue (on_exception acquired e) \<and> queue_payload (on_exception acquired e) = None
   \<and> lease_acquired (on_exception acquired e) = acquired"
  by (cases e) (simp_all add: on_exception_def)

lemma info_loop_actions:
  "info_loop us fin p = (x, tr, p1) \<Longrightarrow> \<forall>a \<in> set tr. is_search_action a"
  by (induction us arbitrary: p) (auto simp: Let_def split: if_splits)

lemma search_streaming_actions:
  assumes "search_streaming env p = (r, tr, p1)"
  shows "\<forall>a \<in> set tr. is_search_action a"
proof (cases "open_raises env")
  case (Some e)
  with assms show ?thesis by (auto simp: search_streaming_def)
next
  case None
  obtain x tr1 p2 where il: "info_loop (play_updates env) (play_stream_raises env) p = (x, tr1, p2)"
    by (metis prod_cases3)
  from info_loop_actions [OF il] assms None il show ?thesis
    by (auto simp: search_streaming_def Let_def split: option.splits sum.splits if_splits)
qed

lemma search_blocking_actions:
  "search_blocking env p = (r, tr, p1) \<Longrightarrow> \<forall>a \<in> set tr. is_search_action a"
  by (auto simp: search_blocking_def Let_def split: option.splits sum.splits)

lemma apply_pl_call_latest_fen: "latest_fen (apply_pl_call c p) = latest_fen p"
  by (cases c) (simp_all add: Playing_force_def Playing_cancel_def)

lemma apply_pl_calls_latest_fen: "latest_fen (apply_pl_calls cs p) = latest_fen p"
  by (induction cs arbitrary: p) (simp_all add: apply_pl_call_latest_fen)

lemma info_loop_latest_fen:
  "info_loop us fin p = (x, tr, p1) \<Longrightarrow> latest_fen p1 = latest_fen p"
  by (induction us arbitrary: p)
     (auto simp: Let_def apply_pl_calls_latest_fen split: if_splits)

lemma search_streaming_latest_fen:
  assumes "search_streaming env p = (r, tr, p1)"
  shows "latest_fen p1 = latest_fen p"
proof (cases "open_raises env")
  case (Some e)
  with assms show ?thesis by (auto simp: search_streaming_def)
next
  case None
  obtain x tr1 p2 where il: "info_loop (play_updates env) (play_stream_raises env) p = (x, tr1, p2)"
    by (metis prod_cases3)
  from info_loop_latest_fen [OF il] assms None il show ?thesis
    by (auto simp: search_streaming_def Let_def apply_pl_calls_latest_fen
        split: option.splits sum.splits if_splits)
qed

lemma search_blocking_latest_fen:
  "search_blocking env p = (r, tr, p1) \<Longrightarrow> latest_fen p1 = latest_fen p"
  by (auto simp: search_blocking_def Let_def apply_pl_calls_latest_fen
      split: option.splits sum.splits)

lemma engine_task_try_shape:
  assumes "engine_task_try env t p = (out, tr, p1)"
  shows "should_queue out
    \<and> (lease_acquired out \<longleftrightarrow> Pl_lease_acquired \<in> set tr)
    \<and> (\<forall>a \<in> set tr. a = Pl_lease_acquired \<or> is_search_action a)
    \<and> (raised out \<noteq> None \<longrightarrow> queue_payload out = None)
    \<and> (\<forall>r. queue_payload out = Some r \<longrightarrow> analysed_fen r = fen (task_game t))"
proof (cases "lease_raises env")
  case (Some e)
  with assms have "out = on_exception False e" and "tr = []"
    by (simp_all add: engine_task_try_def)
  with on_exception_queues [of False e] show ?thesis by simp
next
  case None
  let ?p = "p\<lparr>latest_fen := fen (task_game t)\<rparr>"
  obtain r tr1 p2 where
    sr: "(if allow_info_loop ?p then search_streaming env ?p else search_blocking env ?p)
           = (r, tr1, p2)"
    by (metis prod_cases3)
  have acts: "\<forall>a \<in> set tr1. is_search_action a"
    using sr search_streaming_actions [of env ?p r tr1 p2] search_blocking_actions [of env ?p r tr1 p2]
    by (auto split: if_splits)
  have fen_kept: "latest_fen p2 = fen (task_game t)"
    using sr search_streaming_latest_fen [of env ?p r tr1 p2]
      search_blocking_latest_fen [of env ?p r tr1 p2]
    by (auto split: if_splits)
  show ?thesis
  proof (cases r)
    case (Inl e)
    with assms None sr have "out = on_exception True e" and "tr = Pl_lease_acquired # tr1"
      by (simp_all add: engine_task_try_def Let_def)
    with on_exception_queues [of True e] acts show ?thesis by auto
  next
    case (Inr res)
    with assms None sr have tr: "tr = Pl_lease_acquired # tr1" and p1: "p1 = p2"
      and out: "out = (if cancel_event p2
                then \<lparr>lease_acquired = True, should_queue = True, queue_payload = None,
                      raised = None\<rparr>
                else \<lparr>lease_acquired = True, should_queue = True,
                      queue_payload =
                        Some \<lparr>move = sr_move res, ponder = sr_ponder res, info = sr_info res,
                              analysed_fen = latest_fen p2\<rparr>,
                      raised = None\<rparr>)"
      by (auto simp: engine_task_try_def Let_def)
    with acts fen_kept show ?thesis by auto
  qed
qed

lemma delivered_append: "delivered (xs @ ys) = delivered xs @ delivered ys"
  by (simp add: delivered_def)

lemma delivered_search_actions:
  "\<forall>a \<in> set tr. a = Pl_lease_acquired \<or> is_search_action a \<Longrightarrow> delivered tr = []"
proof (induction tr)
  case Nil
  then show ?case by (simp add: delivered_def)
next
  case (Cons a tr)
  then have "delivered tr = []" by simp
  moreover from Cons.prems have "a = Pl_lease_acquired \<or> is_search_action a" by simp
  then have "delivered [a] = []" by (cases a) (simp_all add: delivered_def)
  ultimately show ?case
    using delivered_append [of "[a]" tr] by simp
qed

lemma engine_task_single_delivery:
  assumes run: "engine_task env t p = (x, tr, p')"
  shows "\<exists>pre payload.
      tr = pre @ Pl_clear_waiting
             # (if Pl_lease_acquired \<in> set pre then [Pl_lease_release] else [])
             @ [Pl_queue_put payload]
      \<and> (\<forall>a \<in> set pre. a = Pl_lease_acquired \<or> is_search_action a)
      \<and> delivered tr = [payload]
      \<and> \<not> waiting p'
      \<and> (x \<noteq> None \<longrightarrow> payload = None)
      \<and> (\<forall>r. payload = Some r \<longrightarrow> analysed_fen r = fen (task_game t))"
proof -
  obtain out pre p1 where tr1: "engine_task_try env t p = (out, pre, p1)"
    by (metis prod_cases3)
  note shape = engine_task_try_shape [OF tr1]
  let ?payload = "queue_payload out"
  let ?tail = "Pl_clear_waiting
             # (if Pl_lease_acquired \<in> set pre then [Pl_lease_release] else [])
             @ [Pl_queue_put ?payload]"
  from run tr1 shape have tr: "tr = pre @ ?tail" and x: "x = raised out"
    and p': "p' = p1\<lparr>waiting := False\<rparr>"
    by (auto simp: engine_task_def engine_task_finally_def)
  have pre_ok: "\<forall>a \<in> set pre. a = Pl_lease_acquired \<or> is_search_action a"
    using shape by simp
  have "delivered ?tail = [?payload]"
    by (simp add: delivered_def)
  with delivered_search_actions [OF pre_ok] have del: "delivered tr = [?payload]"
    by (simp add: tr delivered_append)
  have nw: "\<not> waiting p'" by (simp add: p')
  have xp: "x \<noteq> None \<longrightarrow> ?payload = None"
    using shape x by simp
  have fp: "\<forall>r. ?payload = Some r \<longrightarrow> analysed_fen r = fen (task_game t)"
    using shape by simp
  from tr pre_ok del nw xp fp show ?thesis by blast
qed

lemma play_move_started_delivery:
  assumes run: "play_move_run (Runs env) g lim pon roots p0 = (x, tr, p')"
  shows "\<exists>pre payload.
      tr = pre @ Pl_clear_waiting
             # (if Pl_lease_acquired \<in> set pre then [Pl_lease_release] else [])
             @ [Pl_queue_put payload]
      \<and> (\<forall>a \<in> set pre. a = Pl_lease_acquired \<or> is_search_action a)
      \<and> delivered tr = [payload]
      \<and> \<not> waiting p'
      \<and> (x \<noteq> None \<longrightarrow> payload = None)
      \<and> (\<forall>r. payload = Some r \<longrightarrow> analysed_fen r = fen g)"
proof -
  let ?p = "fst (play_move g lim pon roots p0)" and ?t = "snd (play_move g lim pon roots p0)"
  from run have "engine_task env ?t ?p = (x, tr, p')"
    by (simp add: play_move_run_def split: prod.splits)
  from engine_task_single_delivery [OF this] show ?thesis
    by (simp add: play_move_def)
qed

lemma forced_search_run:
  "play_move_run (Runs forced_search) quiet_board depth_ten False None idle_playing
     = (None,
        [Pl_lease_acquired, Pl_engine_analysis, Pl_analysis_stop, Pl_analysis_stop,
         Pl_clear_waiting, Pl_lease_release,
         Pl_queue_put
           (Some \<lparr>move = Some 12, ponder = Some 52,
                  info = Some \<lparr>depth = Some 4, details = 1\<rparr>,
                  analysed_fen = fen quiet_board\<rparr>)],
        idle_playing\<lparr>latest_info := Some \<lparr>depth = Some 4, details = 1\<rparr>,
          latest_fen := fen quiet_board, pl_task := True, force_event := True\<rparr>)"
  by (simp add: play_move_run_def play_move_def engine_task_def engine_task_try_def
      engine_task_finally_def search_streaming_def forced_search_def idle_playing_def
      Playing_init_def Playing_set_game_id_def Playing_force_def send_stop_def Let_def)

lemma cancelled_in_queue_run:
  "play_move_run (Runs cancelled_in_queue) quiet_board depth_ten False None idle_playing
     = (Some CancelledError, [Pl_clear_waiting, Pl_queue_put None],
        idle_playing\<lparr>pl_task := True\<rparr>)"
  by (simp add: play_move_run_def play_move_def engine_task_def engine_task_try_def
      engine_task_finally_def on_exception_def cancelled_in_queue_def forced_search_def
      idle_playing_def Playing_init_def Playing_set_game_id_def)

text \<open>
  C1 fails for a task that is cancelled before its first step. For every invocation of
  \<^verbatim>\<open>play_move\<close>: \<^verbatim>\<open>_task\<close> is set and not done on return, so \<^verbatim>\<open>abort\<close> cancels
  the task; if that happens before the event loop has run the task's first step, the
  run ends with \<^verbatim>\<open>CancelledError\<close> and an empty trace in the state that
  \<^verbatim>\<open>play_move\<close> left: nothing is put on the result queue, the lease is not touched,
  and \<^verbatim>\<open>_waiting\<close> stays set. (A task that starts puts exactly one item, after
  clearing \<^verbatim>\<open>_waiting\<close> and releasing the lease, whatever happens at its awaits:
  \<open>play_move_started_delivery\<close>.)
\<close>

theorem play_move_cancelled_before_start:
  "abort False (fst (play_move g lim pon roots p0))
   \<and> play_move_run Cancelled_before_start g lim pon roots p0
       = (Some CancelledError, [], fst (play_move g lim pon roots p0))
   \<and> delivered (fst (snd (play_move_run Cancelled_before_start g lim pon roots p0))) = []
   \<and> waiting (snd (snd (play_move_run Cancelled_before_start g lim pon roots p0)))
   \<and> is_waiting_for_move (snd (snd (play_move_run Cancelled_before_start g lim pon roots p0)))"
  by (simp add: play_move_run_def play_move_def abort_def delivered_def is_waiting_for_move_def)

subsection \<open>The session\<close>

lemma loaded_session_eq:
  "loaded_session =
     \<lparr>engine = Some 8, transport = Some 7,
      analyser = Some (ContinuousAnalysis_init (Some 8)),
      playing = Some (Playing_init (Some 8) True),
      engine_lease = Some lease_init, ue_game_id = 1, is_mame = False,
      legacy_analysis_mode = False, engine_name = ''Stockfish'', pondering = False\<rparr>"
  by (simp add: loaded_session_def open_engine_def UciEngine_init_def set_game_id_def
      ContinuousAnalysis_init_def Playing_init_def Playing_set_game_id_def
      should_disable_info_loop_def)

lemma get_analysis_fresh:
  assumes "UciEngine_get_analysis g s = Inr r" and "r \<noteq> empty_result"
  shows "\<exists>a. analyser s = Some a \<and> is_running a \<and> get_fen a = fen g \<and> res_fen r = fen g
           \<and> res_info r = map_option stored (analysis_data a)
           \<and> res_game r = Some (current_game_id a)
           \<and> (ids_in_sync s \<longrightarrow> res_game r = Some (ue_game_id s))"
proof -
  from assms obtain a where a: "analyser s = Some a" and run: "is_running a"
    and same: "get_fen a = fen g" and ga: "get_analysis a = Inr r"
    by (auto simp: UciEngine_get_analysis_def analyser_running_def
        split: option.splits if_splits)
  from ga obtain b where b: "current_game a = Some b"
    and r: "r = \<lparr>res_info = map_option stored (analysis_data a), res_fen = fen b,
                 res_game = Some (current_game_id a)\<rparr>"
    by (auto simp: get_analysis_def split: option.splits)
  from b same have "fen b = fen g" by (simp add: get_fen_def)
  with a run same r show ?thesis
    by (auto simp: ids_in_sync_def)
qed

lemma get_analysis_moved_on:
  assumes "analyser s = None
           \<or> (\<exists>a. analyser s = Some a \<and> (\<not> is_running a \<or> get_fen a \<noteq> fen g))"
  shows "UciEngine_get_analysis g s = Inr empty_result"
  using assms
  by (auto simp: UciEngine_get_analysis_def analyser_running_def split: option.splits)

lemma get_analysis_returns:
  assumes "fen g \<noteq> []"
  shows "\<exists>r. UciEngine_get_analysis g s = Inr r \<and> (res_fen r = fen g \<or> r = empty_result)"
proof (cases "analyser_running s")
  case None
  then show ?thesis by (simp add: UciEngine_get_analysis_def)
next
  case (Some a)
  show ?thesis
  proof (cases "get_fen a = fen g")
    case False
    with Some show ?thesis by (simp add: UciEngine_get_analysis_def)
  next
    case True
    with assms obtain b where b: "current_game a = Some b" and "fen b = fen g"
      by (auto simp: get_fen_def split: option.splits)
    with Some True show ?thesis
      by (simp add: UciEngine_get_analysis_def get_analysis_def)
  qed
qed

text \<open>
  The position half of freshness holds: in every state the background loop can reach,
  the lines that \<^verbatim>\<open>UciEngine.get_analysis\<close> returns for a board were computed for
  that board's position string. The loop keeps \<open>data_for_current\<close> because it clears
  \<^verbatim>\<open>_analysis_data\<close> whenever it moves to a new position.
\<close>

lemma get_analysis_position_fresh:
  assumes "analyser s = Some a" and "data_for_current a"
    and "UciEngine_get_analysis g s = Inr r" and "r \<noteq> empty_result"
    and "res_info r = Some ls"
  shows "\<exists>an. analysis_data a = Some an \<and> stored an = ls \<and> computed_for an = fen g
              \<and> res_fen r = fen g"
proof -
  from get_analysis_fresh [OF assms(3,4)] assms(1)
  have same: "get_fen a = fen g" and lab: "res_fen r = fen g"
    and inf: "res_info r = map_option stored (analysis_data a)"
    by auto
  from inf assms(5) obtain an where an: "analysis_data a = Some an" and st: "stored an = ls"
    by (cases "analysis_data a") auto
  from assms(2) an same have "computed_for an = fen g"
    by (auto simp: data_for_current_def get_fen_def split: option.splits)
  with an st lab show ?thesis by simp
qed

lemma newgame_data_for_current:
  assumes "analyser s = Some a" and "data_for_current a"
  shows "\<exists>a'. analyser (fst (newgame g send s)) = Some a' \<and> data_for_current a'"
  using assms
  by (auto simp: newgame_def Let_def data_for_current_def update_game_def set_game_id_def
      split: option.splits)

lemma start_analysis_data_for_current:
  assumes "analyser s = Some a" and "data_for_current a"
    and "start_analysis g lim mpv s = Inr (r, s', created)"
  shows "\<exists>a'. analyser s' = Some a' \<and> data_for_current a'"
proof (cases "analyser_running s")
  case (Some b)
  with assms(1) have "b = a"
    by (auto simp: analyser_running_def split: if_splits)
  with Some assms show ?thesis
    by (auto simp: start_analysis_def Let_def data_for_current_def update_limit_def
        update_game_def split: if_splits option.splits)
next
  case None
  with assms show ?thesis
    by (auto simp: start_analysis_def data_for_current_def start_def
        split: if_splits option.splits prod.splits)
qed

lemma analysing_session_result:
  "UciEngine_get_analysis quiet_board analysing_session
     = Inr \<lparr>res_info = Some [\<lparr>depth = Some 10, details = 1\<rparr>], res_fen = fen quiet_board,
            res_game = Some 1\<rparr>"
  by (simp add: UciEngine_get_analysis_def analyser_running_def analysing_session_def
      limited_analyser_def started_analyser_def is_running_def get_fen_def get_analysis_def)

text \<open>
  C5 fails in its generation-id clause. A session analyses the starting position under
  game id 1 and has one update in. \<^verbatim>\<open>newgame\<close> with the starting position makes the
  session's id 2; \<^verbatim>\<open>set_game_id\<close> writes \<^verbatim>\<open>current_game_id\<close> along with
  \<^verbatim>\<open>game_id\<close> and \<^verbatim>\<open>update_game\<close> keeps \<^verbatim>\<open>_analysis_data\<close>, so
  \<^verbatim>\<open>get_analysis\<close> for the starting position returns the lines computed under game
  id 1 labelled with game id 2. The running analysis is not superseded either: its next
  update, of the analysis the engine was given game id 1 for, is stored and served under
  id 2 as well.
\<close>

theorem get_analysis_relabels:
  "ue_game_id mid_flight_session = 1
   \<and> map_option computed_under (analysis_data mid_flight_analyser) = Some 1
   \<and> analyser mid_flight_session = Some mid_flight_analyser
   \<and> ue_game_id (fst (newgame quiet_board True mid_flight_session)) = 2
   \<and> analyser (fst (newgame quiet_board True mid_flight_session))
       = Some (update_game quiet_board (set_game_id 2 mid_flight_analyser))
   \<and> map_option computed_under
        (analysis_data (update_game quiet_board (set_game_id 2 mid_flight_analyser))) = Some 1
   \<and> UciEngine_get_analysis quiet_board (fst (newgame quiet_board True mid_flight_session))
       = Inr \<lparr>res_info = Some [\<lparr>depth = Some 5, details = 0\<rparr>], res_fen = fen quiet_board,
              res_game = Some 2\<rparr>
   \<and> analyse_update None (fen quiet_board) 1
        \<lparr>outside = [Set_game_id 2, Update_game quiet_board], interrupted = False,
         lines = [\<lparr>depth = Some 6, details = 0\<rparr>]\<rparr>
        mid_flight_analyser
       = (Next, [Sleep_delay],
          (update_game quiet_board (set_game_id 2 mid_flight_analyser))
            \<lparr>analysis_data :=
               Some \<lparr>stored = [\<lparr>depth = Some 6, details = 0\<rparr>],
                     computed_for = fen quiet_board, computed_under = 1\<rparr>\<rparr>)
   \<and> get_analysis
        ((update_game quiet_board (set_game_id 2 mid_flight_analyser))
           \<lparr>analysis_data :=
              Some \<lparr>stored = [\<lparr>depth = Some 6, details = 0\<rparr>],
                    computed_for = fen quiet_board, computed_under = 1\<rparr>\<rparr>)
       = Inr \<lparr>res_info = Some [\<lparr>depth = Some 6, details = 0\<rparr>], res_fen = fen quiet_board,
              res_game = Some 2\<rparr>"
  by (simp add: mid_flight_session_def loaded_session_eq mid_flight_analyser_def
      started_analyser_def newgame_def needs_ucinewgame_def Playing_cancel_def
      Playing_set_game_id_def Playing_init_def send_stop_def update_game_def set_game_id_def
      UciEngine_get_analysis_def analyser_running_def is_running_def get_fen_def
      get_analysis_def analyse_update_def target_superseded_def update_analysis_data_def
      limit_hit_def depth_reached_def)

lemma newgame_unloaded: "engine s = None \<Longrightarrow> newgame g send s = (s, [])"
  by (simp add: newgame_def)

lemma needle_not_stop: "(h, ''stop'') \<noteq> (eng, ''ucinewgame'')"
  by simp

lemma newgame_loaded_eq:
  assumes "engine s = Some eng"
  shows "newgame g send s =
     (s\<lparr>ue_game_id := ue_game_id s + 1,
        analyser := map_option (\<lambda>a. update_game g (set_game_id (ue_game_id s + 1) a)) (analyser s),
        playing := map_option (\<lambda>p. fst (Playing_cancel (Playing_set_game_id (ue_game_id s + 1) p)))
                     (playing s)\<rparr>,
      (case playing s of None \<Rightarrow> [] | Some p \<Rightarrow> send_stop p)
      @ (if needs_ucinewgame s \<and> send then [(eng, ''ucinewgame'')] else []))"
proof (cases "analyser s")
  case None
  show ?thesis
  proof (cases "playing s")
    case pn: None
    with None assms show ?thesis by (simp add: newgame_def Let_def)
  next
    case (Some p)
    with None assms show ?thesis
      by (simp add: newgame_def Let_def Playing_cancel_def Playing_set_game_id_def send_stop_def)
  qed
next
  case (Some a)
  show ?thesis
  proof (cases "playing s")
    case None
    with Some assms show ?thesis by (simp add: newgame_def Let_def)
  next
    case ps: (Some p)
    with Some assms show ?thesis
      by (simp add: newgame_def Let_def Playing_cancel_def Playing_set_game_id_def send_stop_def)
  qed
qed

lemma newgame_loaded:
  assumes "engine s = Some eng"
  shows "ue_game_id (fst (newgame g send s)) = ue_game_id s + 1
    \<and> (\<forall>a. analyser s = Some a \<longrightarrow>
          (\<exists>a'. analyser (fst (newgame g send s)) = Some a'
                \<and> game_id a' = ue_game_id s + 1 \<and> current_game_id a' = ue_game_id s + 1
                \<and> game a' = Some g \<and> \<not> limit_reached a'))
    \<and> (\<forall>p. playing s = Some p \<longrightarrow>
          (\<exists>p'. playing (fst (newgame g send s)) = Some p'
                \<and> pl_game_id p' = ue_game_id s + 1 \<and> cancel_event p' \<and> force_event p')
          \<and> (\<forall>h. pl_engine p = Some h \<longrightarrow> (h, ''stop'') \<in> set (snd (newgame g send s))))
    \<and> ((eng, ''ucinewgame'') \<in> set (snd (newgame g send s))
          \<longleftrightarrow> needs_ucinewgame s \<and> send)
    \<and> ids_in_sync (fst (newgame g send s))"
proof -
  note eq = newgame_loaded_eq [OF assms, of g send]
  have c1: "ue_game_id (fst (newgame g send s)) = ue_game_id s + 1"
    by (simp add: eq)
  have c2: "\<forall>a. analyser s = Some a \<longrightarrow>
          (\<exists>a'. analyser (fst (newgame g send s)) = Some a'
                \<and> game_id a' = ue_game_id s + 1 \<and> current_game_id a' = ue_game_id s + 1
                \<and> game a' = Some g \<and> \<not> limit_reached a')"
    by (simp add: eq update_game_def set_game_id_def)
  have c3: "\<forall>p. playing s = Some p \<longrightarrow>
          (\<exists>p'. playing (fst (newgame g send s)) = Some p'
                \<and> pl_game_id p' = ue_game_id s + 1 \<and> cancel_event p' \<and> force_event p')
          \<and> (\<forall>h. pl_engine p = Some h \<longrightarrow> (h, ''stop'') \<in> set (snd (newgame g send s)))"
    by (simp add: eq Playing_cancel_def Playing_set_game_id_def send_stop_def)
  have stops: "(eng, ''ucinewgame'') \<notin> set (case playing s of None \<Rightarrow> [] | Some p \<Rightarrow> send_stop p)"
    by (simp add: send_stop_def split: option.splits)
  have c4: "(eng, ''ucinewgame'') \<in> set (snd (newgame g send s))
          \<longleftrightarrow> needs_ucinewgame s \<and> send"
    using stops by (auto simp: eq)
  have c5: "ids_in_sync (fst (newgame g send s))"
    by (simp add: eq ids_in_sync_def update_game_def set_game_id_def Playing_cancel_def
        Playing_set_game_id_def split: option.splits)
  from c1 c2 c3 c4 c5 show ?thesis by blast
qed

text \<open>
  C7, amended. Every call of \<^verbatim>\<open>newgame\<close> while an engine is loaded increments the
  game id by one, sets both ids of the analyser and the id of the playing task (each if
  it exists) to the new id before it returns, hands the analyser the new position, sets
  the cancel and force events of the playing task and writes \<^verbatim>\<open>stop\<close> to its
  engine, and writes \<^verbatim>\<open>ucinewgame\<close> to the engine exactly when the engine is a MAME
  engine or its name contains \<^verbatim>\<open>PGN Replay\<close>, and \<^verbatim>\<open>send_ucinewgame\<close> is true.
  With no engine loaded, \<^verbatim>\<open>newgame\<close> changes nothing and writes nothing.
\<close>

theorem newgame_generation:
  "(engine s = Some eng \<longrightarrow>
      ue_game_id (fst (newgame g send s)) = ue_game_id s + 1
      \<and> (\<forall>a. analyser s = Some a \<longrightarrow>
            (\<exists>a'. analyser (fst (newgame g send s)) = Some a'
                  \<and> game_id a' = ue_game_id s + 1 \<and> current_game_id a' = ue_game_id s + 1
                  \<and> game a' = Some g \<and> \<not> limit_reached a'))
      \<and> (\<forall>p. playing s = Some p \<longrightarrow>
            (\<exists>p'. playing (fst (newgame g send s)) = Some p'
                  \<and> pl_game_id p' = ue_game_id s + 1 \<and> cancel_event p' \<and> force_event p')
            \<and> (\<forall>h. pl_engine p = Some h \<longrightarrow> (h, ''stop'') \<in> set (snd (newgame g send s))))
      \<and> ((eng, ''ucinewgame'') \<in> set (snd (newgame g send s))
            \<longleftrightarrow> needs_ucinewgame s \<and> send)
      \<and> ids_in_sync (fst (newgame g send s)))
   \<and> (engine s = None \<longrightarrow> newgame g send s = (s, []))"
  using newgame_loaded [of s eng g send] newgame_unloaded [of s g send]
  by blast

text \<open>
  C7 as stated fails on a session that was never opened: the game id stays, and not even
  a MAME engine gets \<^verbatim>\<open>ucinewgame\<close>.
\<close>

theorem newgame_generation_counterexample:
  "ue_game_id (fst (newgame quiet_board True (UciEngine_init True)))
     \<noteq> ue_game_id (UciEngine_init True) + 1
   \<and> snd (newgame quiet_board True (UciEngine_init True)) = []"
  by (simp add: newgame_def UciEngine_init_def)

lemma pgn_replay_newgame:
  "newgame after_e4 True pgn_replay_session
     = (pgn_replay_session
          \<lparr>ue_game_id := 2,
           analyser := Some ((ContinuousAnalysis_init (Some 8))
                              \<lparr>game_id := 2, current_game_id := 2, game := Some after_e4\<rparr>),
           playing := Some ((Playing_init (Some 8) True)
                              \<lparr>waiting := True, pl_task := True, pl_game_id := 2,
                               cancel_event := True, force_event := True\<rparr>)\<rparr>,
        [(8, ''stop''), (8, ''ucinewgame'')])"
  by (simp add: newgame_def Let_def pgn_replay_session_def thinking_session_def
      loaded_session_eq play_move_def idle_playing_def Playing_init_def Playing_set_game_id_def
      Playing_cancel_def send_stop_def needs_ucinewgame_def ContinuousAnalysis_init_def
      set_game_id_def update_game_def)

theorem newgame_generation_witness:
  "engine pgn_replay_session = Some 8
   \<and> ue_game_id (fst (newgame after_e4 True pgn_replay_session)) = 2
   \<and> snd (newgame after_e4 True pgn_replay_session) = [(8, ''stop''), (8, ''ucinewgame'')]
   \<and> needs_ucinewgame pgn_replay_session
   \<and> ids_in_sync (fst (newgame after_e4 True pgn_replay_session))
   \<and> newgame after_e4 True (UciEngine_init False) = (UciEngine_init False, [])"
proof -
  have e: "engine pgn_replay_session = Some 8"
    by (simp add: pgn_replay_session_def thinking_session_def loaded_session_eq)
  have gid: "ue_game_id pgn_replay_session = 1"
    by (simp add: pgn_replay_session_def thinking_session_def loaded_session_eq)
  have un: "engine (UciEngine_init False) = None"
    by (simp add: UciEngine_init_def)
  have sent: "snd (newgame after_e4 True pgn_replay_session)
               = [(8, ''stop''), (8, ''ucinewgame'')]"
    by (simp add: pgn_replay_newgame)
  from newgame_generation [of pgn_replay_session 8 after_e4 True] e gid sent
  have "ue_game_id (fst (newgame after_e4 True pgn_replay_session)) = 2
        \<and> needs_ucinewgame pgn_replay_session
        \<and> ids_in_sync (fst (newgame after_e4 True pgn_replay_session))"
    by simp
  moreover from newgame_generation [of "UciEngine_init False" 0 after_e4 True] un
  have "newgame after_e4 True (UciEngine_init False) = (UciEngine_init False, [])"
    by simp
  ultimately show ?thesis using e sent by simp
qed

lemma open_engine_caught:
  assumes "caught_on_open v e"
  shows "open_engine v (Inl e) s = (None, open_failed s)
    \<and> \<not> loaded_ok (snd (open_engine v (Inl e) s))
    \<and> transport (snd (open_engine v (Inl e) s)) = None"
  using assms by (simp add: open_engine_def open_failed_def loaded_ok_def)

lemma open_engine_uncaught:
  "\<not> caught_on_open v e \<Longrightarrow> open_engine v (Inl e) s = (Some e, s)"
  by (simp add: open_engine_def)

lemma reopen_try_popen_raises:
  assumes "on_quit env = None" and "on_popen env = Inl e"
  shows "\<exists>s1. reopen_try env s = (Inl e, s1)"
  using assms by (simp add: reopen_try_def quit_def split: prod.splits)

lemma reopen_engine_caught:
  assumes "caught_on_open v e" and "on_quit env = None" and "on_popen env = Inl e"
  shows "fst (reopen_engine v env s) = Inr False
    \<and> \<not> loaded_ok (snd (reopen_engine v env s))
    \<and> transport (snd (reopen_engine v env s)) = None"
proof -
  from reopen_try_popen_raises [OF assms(2,3)] obtain s1 where "reopen_try env s = (Inl e, s1)"
    by blast
  with assms(1) show ?thesis
    by (simp add: reopen_engine_def open_failed_def loaded_ok_def)
qed

lemma reopen_engine_uncaught:
  assumes "\<not> caught_on_open v e" and "on_quit env = None" and "on_popen env = Inl e"
  shows "fst (reopen_engine v env s) = Inl e"
proof -
  from reopen_try_popen_raises [OF assms(2,3)] obtain s1 where "reopen_try env s = (Inl e, s1)"
    by blast
  with assms(1) show ?thesis
    by (simp add: reopen_engine_def)
qed

lemma start_failure_caught:
  "caught_on_open False OSError
   \<and> open_engine False (Inl OSError) (UciEngine_init False)
       = (None, open_failed (UciEngine_init False))
   \<and> \<not> loaded_ok (snd (open_engine False (Inl OSError) (UciEngine_init False)))
   \<and> loaded_ok loaded_session
   \<and> fst (reopen_engine False popen_not_found loaded_session) = Inr False
   \<and> \<not> loaded_ok (snd (reopen_engine False popen_not_found loaded_session))"
proof -
  have c: "caught_on_open False OSError"
    by (simp add: caught_on_open_def)
  have q: "on_quit popen_not_found = None" and po: "on_popen popen_not_found = Inl OSError"
    by (simp_all add: popen_not_found_def)
  have l: "loaded_ok loaded_session"
    by (simp add: loaded_ok_def loaded_session_eq)
  from open_engine_caught [OF c, of "UciEngine_init False"]
    reopen_engine_caught [OF c q po, of loaded_session] c l
  show ?thesis by blast
qed

text \<open>
  C8 fails when \<^verbatim>\<open>popen_uci\<close> raises \<^verbatim>\<open>chess.engine.EngineError\<close>, which a
  failed start of the engine process does (a process that starts and answers the
  \<^verbatim>\<open>uci\<close> handshake wrongly). The handlers of \<^verbatim>\<open>open_engine\<close> and
  \<^verbatim>\<open>reopen_engine\<close> name \<^verbatim>\<open>OSError\<close>, \<^verbatim>\<open>TypeError\<close> and
  \<^verbatim>\<open>EngineTerminatedError\<close> only, so the exception reaches the caller of either
  method, on every Python version, and the session is left as it was:
  \<^verbatim>\<open>open_engine\<close> does not clear engine and transport, and \<^verbatim>\<open>reopen_engine\<close>
  returns nothing. The sibling class \<^verbatim>\<open>EngineTerminatedError\<close> is reported through
  the loaded state, as is every exception the handlers name (\<open>open_engine_caught\<close>,
  \<open>reopen_engine_caught\<close>).
\<close>

theorem start_failure_escapes:
  "open_engine False (Inl EngineError) (UciEngine_init False)
     = (Some EngineError, UciEngine_init False)
   \<and> open_engine True (Inl EngineError) (UciEngine_init False)
     = (Some EngineError, UciEngine_init False)
   \<and> open_engine False (Inl EngineError) loaded_session = (Some EngineError, loaded_session)
   \<and> loaded_ok (snd (open_engine False (Inl EngineError) loaded_session))
   \<and> fst (reopen_engine False
            \<lparr>on_quit = None, on_popen = Inl EngineError, on_send = None\<rparr> loaded_session)
       = Inl EngineError
   \<and> fst (reopen_engine True
            \<lparr>on_quit = None, on_popen = Inl EngineError, on_send = None\<rparr> loaded_session)
       = Inl EngineError
   \<and> open_engine False (Inl EngineTerminatedError) (UciEngine_init False)
     = (None, open_failed (UciEngine_init False))
   \<and> fst (reopen_engine False
            \<lparr>on_quit = None, on_popen = Inl EngineTerminatedError, on_send = None\<rparr>
            loaded_session)
       = Inr False"
  by (simp add: open_engine_def reopen_engine_def reopen_try_def quit_def quit_sisters_def
      caught_on_open_def loaded_session_eq is_running_def is_waiting_for_move_def
      ContinuousAnalysis_init_def Playing_init_def set_game_id_def Playing_set_game_id_def
      loaded_ok_def)

lemma start_analysis_thinking:
  assumes "analyser_running s = None" and "playing s = Some p" and "is_waiting_for_move p"
  shows "start_analysis g lim mpv s = Inr (False, s, False)"
  using assms by (simp add: start_analysis_def split: option.splits)

lemma start_analysis_no_task:
  assumes "playing s = Some p" and "is_waiting_for_move p"
    and "start_analysis g lim mpv s = Inr (r, s', created)"
  shows "\<not> created \<and> map_option is_running (analyser s') = map_option is_running (analyser s)"
proof (cases "analyser_running s")
  case None
  with start_analysis_thinking [OF None assms(1,2), of g lim mpv] assms(3)
  show ?thesis by simp
next
  case (Some a)
  then have a: "analyser s = Some a" and "is_running a"
    by (auto simp: analyser_running_def split: option.splits if_splits)
  with Some assms(3) show ?thesis
    by (auto simp: start_analysis_def Let_def update_limit_def update_game_def is_running_def
        split: if_splits)
qed

text \<open>
  C9. If the analyser is not running and the playing task is waiting for a move,
  \<^verbatim>\<open>start_analysis\<close> returns false and leaves the session as it is, with no task
  created. Whatever the analyser's state, a call made while the playing task waits
  creates no analyser task and leaves the running flag as it was.
\<close>

theorem start_analysis_never_while_thinking:
  "(analyser_running s = None \<and> playing s = Some p \<and> is_waiting_for_move p \<longrightarrow>
      start_analysis g lim mpv s = Inr (False, s, False))
   \<and> (playing s = Some p \<and> is_waiting_for_move p
        \<and> start_analysis g lim mpv s = Inr (r, s', created) \<longrightarrow>
      \<not> created
      \<and> map_option is_running (analyser s') = map_option is_running (analyser s))"
  using start_analysis_thinking [of s p g lim mpv] start_analysis_no_task [of s p g lim mpv r s' created]
  by blast

theorem start_analysis_never_while_thinking_witness:
  "analyser_running thinking_session = None
   \<and> is_waiting_for_move
        (fst (play_move quiet_board depth_ten False None (Playing_init (Some 8) True)))
   \<and> start_analysis after_e4 None None thinking_session = Inr (False, thinking_session, False)
   \<and> start_analysis after_e4 None None loaded_session
       = Inr (False,
              loaded_session
                \<lparr>analyser :=
                   Some ((ContinuousAnalysis_init (Some 8))
                           \<lparr>game := Some after_e4, running := True, ca_task := True\<rparr>)\<rparr>,
              True)"
proof -
  let ?p = "fst (play_move quiet_board depth_ten False None (Playing_init (Some 8) True))"
  have nr: "analyser_running thinking_session = None"
    by (simp add: analyser_running_def thinking_session_def loaded_session_eq
        ContinuousAnalysis_init_def set_game_id_def is_running_def)
  have pl: "playing thinking_session = Some ?p"
    by (simp add: thinking_session_def)
  have w: "is_waiting_for_move ?p"
    by (simp add: is_waiting_for_move_def play_move_def)
  have idle: "start_analysis after_e4 None None loaded_session
       = Inr (False,
              loaded_session
                \<lparr>analyser :=
                   Some ((ContinuousAnalysis_init (Some 8))
                           \<lparr>game := Some after_e4, running := True, ca_task := True\<rparr>)\<rparr>,
              True)"
    by (simp add: start_analysis_def analyser_running_def loaded_session_eq start_def
        ContinuousAnalysis_init_def set_game_id_def is_running_def is_waiting_for_move_def
        Playing_init_def Playing_set_game_id_def)
  from start_analysis_never_while_thinking [of thinking_session ?p after_e4 None None] nr pl w
  have "start_analysis after_e4 None None thinking_session = Inr (False, thinking_session, False)"
    by simp
  with nr w idle show ?thesis by simp
qed

lemma go_unloaded:
  assumes "engine s = None \<or> playing s = None"
  shows "go lo g roots s = Inr (s, None) \<and> go_run r lo g roots s = []"
  using assms by (auto simp: go_run_def go_def split: option.splits)

lemma go_loaded:
  assumes "engine s = Some eng" and "playing s = Some p"
  shows "go (Inr lim) g roots s
           = Inr (s\<lparr>playing := Some (fst (play_move g lim (pondering s) roots p))\<rparr>,
                  Some (snd (play_move g lim (pondering s) roots p)))"
  using assms by (simp add: go_def split: prod.splits)

lemma go_run_loaded:
  assumes "engine s = Some eng" and "playing s = Some p"
  shows "length (go_run (Runs env) (Inr lim) g roots s) = 1"
proof -
  let ?p = "fst (play_move g lim (pondering s) roots p)"
  let ?t = "snd (play_move g lim (pondering s) roots p)"
  obtain x tr p' where run: "engine_task env ?t ?p = (x, tr, p')"
    by (metis prod_cases3)
  from engine_task_single_delivery [OF run] obtain payload where "delivered tr = [payload]"
    by blast
  moreover have "go_run (Runs env) (Inr lim) g roots s = delivered tr"
    using run by (simp add: go_run_def go_loaded [OF assms])
  ultimately show ?thesis by simp
qed

text \<open>
  C10. If no engine is loaded or the playing task is missing, \<^verbatim>\<open>go\<close> returns with
  the session unchanged and no task created, and nothing ever reaches the result queue.
  With both present and a limit computed, exactly one item reaches it once the created
  task has run.
\<close>

theorem go_without_engine:
  "(engine s = None \<or> playing s = None \<longrightarrow>
      go lo g roots s = Inr (s, None) \<and> go_run r lo g roots s = [])
   \<and> (engine s \<noteq> None \<and> playing s \<noteq> None \<longrightarrow>
      length (go_run (Runs env) (Inr lim) g roots s) = 1)"
  using go_unloaded [of s lo g roots r] go_run_loaded [of s _ _ env lim g roots]
  by blast

theorem go_without_engine_witness:
  "engine (UciEngine_init False) = None
   \<and> go (Inr depth_ten) quiet_board None (UciEngine_init False)
       = Inr (UciEngine_init False, None)
   \<and> go_run (Runs forced_search) (Inr depth_ten) quiet_board None (UciEngine_init False) = []
   \<and> engine loaded_session = Some 8
   \<and> length (go_run (Runs forced_search) (Inr depth_ten) quiet_board None loaded_session) = 1"
proof -
  have un: "engine (UciEngine_init False) = None"
    by (simp add: UciEngine_init_def)
  have ld: "engine loaded_session = Some 8" and pl: "playing loaded_session \<noteq> None"
    by (simp_all add: loaded_session_eq)
  from go_without_engine
    [of "UciEngine_init False" "Inr depth_ten" quiet_board None "Runs forced_search"
       forced_search depth_ten] un
  have a: "go (Inr depth_ten) quiet_board None (UciEngine_init False)
             = Inr (UciEngine_init False, None)
           \<and> go_run (Runs forced_search) (Inr depth_ten) quiet_board None (UciEngine_init False) = []"
    by blast
  from go_without_engine
    [of loaded_session "Inr depth_ten" quiet_board None "Runs forced_search"
       forced_search depth_ten] ld pl
  have b: "length (go_run (Runs forced_search) (Inr depth_ten) quiet_board None loaded_session) = 1"
    by simp
  from un ld a b show ?thesis by blast
qed

lemma open_engine_ids_in_sync: "ids_in_sync (snd (open_engine v (Inr r) s))"
  by (simp add: open_engine_def Let_def ids_in_sync_def set_game_id_def
      ContinuousAnalysis_init_def Playing_init_def Playing_set_game_id_def
      split: option.splits)

lemma start_analysis_ids_in_sync:
  assumes "ids_in_sync s" and "start_analysis g lim mpv s = Inr (r, s', created)"
  shows "ids_in_sync s'"
proof (cases "analyser_running s")
  case (Some a)
  then have "analyser s = Some a"
    by (auto simp: analyser_running_def split: option.splits if_splits)
  with Some assms show ?thesis
    by (auto simp: start_analysis_def Let_def ids_in_sync_def update_limit_def update_game_def
        split: if_splits option.splits)
next
  case None
  with assms show ?thesis
    by (auto simp: start_analysis_def ids_in_sync_def start_def
        split: if_splits option.splits prod.splits)
qed

end
